theory Spec2Isabelle
  imports Complex_Main "HOL-Library.AList" "HOL-Library.Char_ord" "HOL-Library.List_Lexorder"
begin

section \<open>Data model\<close>

text \<open>
  The mining core of the repository lives in \<^verbatim>\<open>src/algorithms/apriori.py\<close> and
  \<^verbatim>\<open>src/algorithms/eclat.py\<close>. Items and transaction identifiers are Python strings,
  an itemset is a \<^verbatim>\<open>frozenset\<close> of strings and the transaction database is a
  \<^verbatim>\<open>Dict[str, Set[str]]\<close>.

  A Python \<^verbatim>\<open>dict\<close> keeps its keys in insertion order and the code iterates over
  \<^verbatim>\<open>.items()\<close> and \<^verbatim>\<open>.values()\<close>, so a dictionary is an association list:
  \<open>map_of\<close> is the lookup, \<open>AList.update\<close> is the assignment \<^verbatim>\<open>d[k] = v\<close> (it overwrites
  in place or appends a new key at the end). Python floats are exact rationals here; rounding
  is outside the model. Python does not fix the order in which a set is iterated; the model
  iterates a set of strings in ascending order.
\<close>

type_synonym Itemset = "string set"
type_synonym TIDSet = "string set"
type_synonym ('k, 'v) dict = "('k \<times> 'v) list"
type_synonym TransactionDB = "(string, string set) dict"
type_synonym FrequentItemsets = "(Itemset, rat) dict"

datatype error = ZeroDivisionError | KeyError | AttributeError

text \<open>Python's true division \<^verbatim>\<open>a / b\<close>: it raises when the divisor is zero.\<close>

definition true_div :: "rat \<Rightarrow> rat \<Rightarrow> error + rat" where
  "true_div a b = (if b = 0 then Inl ZeroDivisionError else Inr (a / b))"

text \<open>\<^verbatim>\<open>d.get(k, default)\<close>.\<close>

definition dict_get :: "('k, 'v) dict \<Rightarrow> 'k \<Rightarrow> 'v \<Rightarrow> 'v" where
  "dict_get d k dflt = (case map_of d k of None \<Rightarrow> dflt | Some v \<Rightarrow> v)"

text \<open>A \<^verbatim>\<open>for\<close> loop whose body may raise: the first exception ends the loop.\<close>

fun for_each :: "('x \<Rightarrow> 's \<Rightarrow> error + 's) \<Rightarrow> 'x list \<Rightarrow> 's \<Rightarrow> error + 's" where
  "for_each body [] st = Inr st"
| "for_each body (x # xs) st =
     (case body x st of Inl e \<Rightarrow> Inl e | Inr st' \<Rightarrow> for_each body xs st')"

text \<open>
  \<^verbatim>\<open>itertools.combinations(xs, r)\<close>: the \<open>r\<close>-element subsequences of \<open>xs\<close>, in
  lexicographic order of their positions.
\<close>

fun combinations :: "'a list \<Rightarrow> nat \<Rightarrow> 'a list list" where
  "combinations xs 0 = [[]]"
| "combinations [] (Suc r) = []"
| "combinations (x # xs) (Suc r) = map ((#) x) (combinations xs r) @ combinations xs (Suc r)"

section \<open>Apriori (horizontal format)\<close>

text \<open>The index pairs \<^verbatim>\<open>for i in range(n): for j in range(i + 1, n)\<close>, as pairs of elements.\<close>

fun index_pairs :: "'a list \<Rightarrow> ('a \<times> 'a) list" where
  "index_pairs [] = []"
| "index_pairs (x # xs) = map (Pair x) xs @ index_pairs xs"

text \<open>
  The prune test of \<^verbatim>\<open>_generate_candidates\<close>: every \<open>(k-1)\<close>-subset of the union is in
  the previous level. The source leaves its loop at the first subset that is missing.
\<close>

definition all_subsets_frequent :: "Itemset list \<Rightarrow> nat \<Rightarrow> Itemset \<Rightarrow> bool" where
  "all_subsets_frequent prev_frequents k u =
     list_all (\<lambda>subset. set subset \<in> set prev_frequents)
       (combinations (sorted_list_of_set u) (k - 1))"

text \<open>
  \<^verbatim>\<open>_generate_candidates\<close>. The local \<^verbatim>\<open>candidates\<close> is a Python set; it is kept as the
  list of its distinct elements, which is what \<^verbatim>\<open>list(candidates)\<close> returns.
\<close>

definition set_add :: "'a \<Rightarrow> 'a list \<Rightarrow> 'a list" where
  "set_add x xs = (if x \<in> set xs then xs else xs @ [x])"

definition join_pair :: "Itemset list \<Rightarrow> nat \<Rightarrow> Itemset \<times> Itemset \<Rightarrow> Itemset list \<Rightarrow> Itemset list" where
  "join_pair prev_frequents k = (\<lambda>(a, b) candidates.
     let u = a \<union> b in
     if card u = k \<and> all_subsets_frequent prev_frequents k u
     then set_add u candidates else candidates)"

definition generate_candidates :: "Itemset list \<Rightarrow> nat \<Rightarrow> Itemset list" where
  "generate_candidates prev_frequents k =
     fold (join_pair prev_frequents k) (index_pairs prev_frequents) []"

text \<open>The first loop of \<^verbatim>\<open>apriori\<close>: occurrences of every single item.\<close>

definition bump_item :: "string \<Rightarrow> (string, nat) dict \<Rightarrow> (string, nat) dict" where
  "bump_item i item_counts = AList.update i (dict_get item_counts i 0 + 1) item_counts"

definition count_items :: "TransactionDB \<Rightarrow> (string, nat) dict" where
  "count_items transactions =
     fold (\<lambda>items. fold bump_item (sorted_list_of_set items)) (map snd transactions) []"

text \<open>
  The counting pass of one level. Every candidate is a key of \<^verbatim>\<open>support_counts\<close> by the
  dictionary comprehension, so \<^verbatim>\<open>support_counts[c] += 1\<close> always finds its key.
\<close>

definition count_hit :: "string set \<Rightarrow> Itemset \<Rightarrow> (Itemset, nat) dict \<Rightarrow> (Itemset, nat) dict" where
  "count_hit items c support_counts =
     (if c \<subseteq> items then AList.map_entry c (\<lambda>n. n + 1) support_counts
      else support_counts)"

definition count_supports :: "TransactionDB \<Rightarrow> Itemset list \<Rightarrow> (Itemset, nat) dict" where
  "count_supports transactions Ck =
     fold (\<lambda>items. fold (count_hit items) Ck) (map snd transactions)
          (fold (\<lambda>c. AList.update c 0) Ck [])"

text \<open>
  The body shared by the loop that builds \<open>L1\<close> and the loop that builds \<open>Lk\<close>: compute the
  relative support and keep the itemset when it reaches \<^verbatim>\<open>min_support\<close>. The state is the
  pair of \<^verbatim>\<open>frequents\<close> and \<^verbatim>\<open>Lk\<close>.
\<close>

definition keep_frequent ::
  "nat \<Rightarrow> rat \<Rightarrow> Itemset \<Rightarrow> nat \<Rightarrow> FrequentItemsets \<times> Itemset list
     \<Rightarrow> error + (FrequentItemsets \<times> Itemset list)" where
  "keep_frequent n_trans min_support c count = (\<lambda>(frequents, Lk).
     case true_div (of_nat count) (of_nat n_trans) of
       Inl e \<Rightarrow> Inl e
     | Inr supp \<Rightarrow>
         if supp \<ge> min_support then Inr (AList.update c supp frequents, Lk @ [c])
         else Inr (frequents, Lk))"

text \<open>One round of the \<^verbatim>\<open>while Lk\<close> loop: candidates, counting pass, new level.\<close>

definition next_level ::
  "TransactionDB \<Rightarrow> rat \<Rightarrow> nat \<Rightarrow> Itemset list \<Rightarrow> nat \<Rightarrow> FrequentItemsets
     \<Rightarrow> error + (FrequentItemsets \<times> Itemset list)" where
  "next_level transactions min_support n_trans Lk k frequents =
     (let Ck = generate_candidates Lk k;
          support_counts = count_supports transactions Ck
      in for_each (\<lambda>(c, count). keep_frequent n_trans min_support c count)
           support_counts (frequents, []))"

text \<open>
  Every itemset of the new level is a union of two itemsets of the previous level and has
  \<open>k\<close> items. The \<^verbatim>\<open>while\<close> loop terminates for this reason.
\<close>

lemma keep_frequent_level:
  "keep_frequent n s c cnt (fr, acc) = Inr (fr', Lk') \<Longrightarrow> set Lk' \<subseteq> insert c (set acc)"
  by (auto simp: keep_frequent_def true_div_def split: if_splits)

lemma for_each_keep_frequent_level:
  "for_each (\<lambda>(c, count). keep_frequent n s c count) d (fr, acc) = Inr (fr', Lk')
   \<Longrightarrow> set Lk' \<subseteq> set acc \<union> fst ` set d"
proof (induction d arbitrary: fr acc)
  case Nil
  then show ?case by simp
next
  case (Cons p d)
  obtain c cnt where p: "p = (c, cnt)" by (cases p)
  from Cons.prems p obtain fr1 acc1 where
    1: "keep_frequent n s c cnt (fr, acc) = Inr (fr1, acc1)" and
    2: "for_each (\<lambda>(c, count). keep_frequent n s c count) d (fr1, acc1) = Inr (fr', Lk')"
    by (auto split: sum.splits)
  from Cons.IH[OF 2] keep_frequent_level[OF 1] p show ?case by auto
qed

lemma keys_fold_update:
  "fst ` set (fold (\<lambda>c. AList.update c v) Ck d) = fst ` set d \<union> set Ck"
  by (induction Ck arbitrary: d) (auto simp: dom_update)

lemma keys_fold_count_hit:
  "fst ` set (fold (count_hit items) Ck d) = fst ` set d"
  by (induction Ck arbitrary: d) (auto simp: count_hit_def dom_map_entry)

lemma keys_count_supports: "fst ` set (count_supports T Ck) = set Ck"
proof -
  have A: "fst ` set (fold (\<lambda>items. fold (count_hit items) Ck) xs d) = fst ` set d" for xs d
    by (induction xs arbitrary: d) (simp_all add: keys_fold_count_hit)
  show ?thesis
    unfolding count_supports_def by (simp only: A keys_fold_update) simp
qed

lemma set_index_pairs: "set (index_pairs xs) \<subseteq> set xs \<times> set xs"
  by (induction xs) auto

lemma generate_candidates_join:
  assumes "c \<in> set (generate_candidates Lk k)"
  shows "\<exists>a\<in>set Lk. \<exists>b\<in>set Lk. c = a \<union> b \<and> card c = k"
proof -
  have "c \<in> set (fold (join_pair Lk k) ps acc)
        \<Longrightarrow> c \<in> set acc \<or> (\<exists>(a, b)\<in>set ps. c = a \<union> b \<and> card c = k)" for ps acc
  proof (induction ps arbitrary: acc)
    case Nil
    then show ?case by simp
  next
    case (Cons p ps)
    obtain a b where p: "p = (a, b)" by (cases p)
    from Cons.prems have "c \<in> set (fold (join_pair Lk k) ps (join_pair Lk k (a, b) acc))"
      by (simp add: p)
    from Cons.IH[OF this] show ?case
      by (auto simp: p join_pair_def Let_def set_add_def split: if_splits)
  qed
  from this[of "index_pairs Lk" "[]"] assms
  have "\<exists>(a, b)\<in>set (index_pairs Lk). c = a \<union> b \<and> card c = k"
    unfolding generate_candidates_def by simp
  with set_index_pairs[of Lk] show ?thesis by blast
qed

lemma next_level_join:
  assumes "next_level T s n Lk k fr = Inr (fr', Lk')" "c \<in> set Lk'"
  shows "\<exists>a\<in>set Lk. \<exists>b\<in>set Lk. c = a \<union> b \<and> card c = k"
proof -
  from assms(1) have "set Lk' \<subseteq> set [] \<union> fst ` set (count_supports T (generate_candidates Lk k))"
    unfolding next_level_def Let_def by (rule for_each_keep_frequent_level)
  with assms(2) have "c \<in> set (generate_candidates Lk k)"
    by (auto simp: keys_count_supports)
  then show ?thesis by (rule generate_candidates_join)
qed

text \<open>
  The \<^verbatim>\<open>while Lk\<close> loop of \<^verbatim>\<open>apriori\<close>. It ends because the itemsets of level \<open>k\<close> have
  \<open>k\<close> items taken from the items of the level before.
\<close>

definition level_measure :: "Itemset list \<Rightarrow> nat \<Rightarrow> nat" where
  "level_measure Lk k =
     (if Lk = [] then 0 else 1 + (card (\<Union>{c \<in> set Lk. finite c}) + 1 - k))"

lemma level_measure_decreases:
  assumes Lk: "Lk \<noteq> []"
    and join: "\<And>c. c \<in> set Lk' \<Longrightarrow> \<exists>a\<in>set Lk. \<exists>b\<in>set Lk. c = a \<union> b \<and> card c = k"
  shows "level_measure Lk' (k + 1) < level_measure Lk k"
proof -
  let ?U = "\<Union>{c \<in> set Lk. finite c}"
  let ?U' = "\<Union>{c \<in> set Lk'. finite c}"
  have finU: "finite ?U" by auto
  show ?thesis
  proof (cases "Lk' = []")
    case True
    with Lk show ?thesis by (simp add: level_measure_def)
  next
    case False
    then obtain c where c: "c \<in> set Lk'" by (cases Lk') auto
    have sub: "?U' \<subseteq> ?U"
    proof
      fix x assume "x \<in> ?U'"
      then obtain d where d: "d \<in> set Lk'" "finite d" "x \<in> d" by auto
      from join[OF d(1)] obtain a b where
        ab: "a \<in> set Lk" "b \<in> set Lk" "d = a \<union> b" by blast
      with d(2) have "finite a" "finite b" by auto
      with ab d(3) show "x \<in> ?U" by auto
    qed
    show ?thesis
    proof (cases "k = 0")
      case True
      have "\<forall>d\<in>set Lk'. finite d \<longrightarrow> d = {}"
      proof (intro ballI impI)
        fix d assume d: "d \<in> set Lk'" "finite d"
        from join[OF d(1)] True have "card d = 0" by blast
        with d(2) show "d = {}" by simp
      qed
      then have "?U' = {}" by auto
      then have "card ?U' = 0" by (simp only: card.empty)
      with False Lk True show ?thesis by (simp add: level_measure_def)
    next
      case k: False
      from join[OF c] obtain a b where
        ab: "a \<in> set Lk" "b \<in> set Lk" "c = a \<union> b" "card c = k" by blast
      from k ab(4) have fc: "finite c" by (metis card.infinite)
      with ab(3) have fab: "finite a" "finite b" by simp_all
      have "c \<subseteq> ?U" using ab(1,2,3) fab by blast
      with finU have "card c \<le> card ?U" by (rule card_mono)
      with ab(4) have 3: "k \<le> card ?U" by simp
      have 4: "card ?U' \<le> card ?U" using finU sub by (rule card_mono)
      show ?thesis using 3 4 False Lk by (simp add: level_measure_def)
    qed
  qed
qed

function apriori_loop ::
  "TransactionDB \<Rightarrow> rat \<Rightarrow> nat \<Rightarrow> Itemset list \<Rightarrow> nat \<Rightarrow> FrequentItemsets
     \<Rightarrow> error + FrequentItemsets" where
  "apriori_loop transactions min_support n_trans Lk k frequents =
     (if Lk = [] then Inr frequents
      else case next_level transactions min_support n_trans Lk k frequents of
             Inl e \<Rightarrow> Inl e
           | Inr (frequents', Lk') \<Rightarrow>
               apriori_loop transactions min_support n_trans Lk' (k + 1) frequents')"
  by pat_completeness auto
termination
proof (relation "measure (\<lambda>(T, s, n, Lk, k, fr). level_measure Lk k)", goal_cases)
  case 1
  show ?case by simp
next
  case (2 T s n Lk k fr x2 fr' Lk')
  then have nl: "next_level T s n Lk k fr = Inr (fr', Lk')" by simp
  from 2 have "Lk \<noteq> []" by simp
  then have "level_measure Lk' (k + 1) < level_measure Lk k"
    using next_level_join[OF nl] by (rule level_measure_decreases)
  then show ?case by simp
qed

text \<open>
  \<^verbatim>\<open>apriori\<close>. The two readings of \<^verbatim>\<open>time.time()\<close> are the arguments \<open>t_start\<close> and
  \<open>t_end\<close>; the second component of the result is the elapsed time.
\<close>

definition apriori ::
  "TransactionDB \<Rightarrow> rat \<Rightarrow> rat \<Rightarrow> rat \<Rightarrow> error + (FrequentItemsets \<times> rat)" where
  "apriori transactions min_support t_start t_end =
     (let item_counts = count_items transactions;
          n_trans = length transactions
      in case for_each (\<lambda>(item, count). keep_frequent n_trans min_support {item} count)
                item_counts ([], []) of
           Inl e \<Rightarrow> Inl e
         | Inr (frequents, Lk) \<Rightarrow>
             (case apriori_loop transactions min_support n_trans Lk 2 frequents of
                Inl e \<Rightarrow> Inl e
              | Inr frequents' \<Rightarrow> Inr (frequents', t_end - t_start)))"

section \<open>Association rules\<close>

record Rule =
  antecedent :: Itemset
  consequent :: Itemset
  support :: rat
  confidence :: rat
  lift :: rat

text \<open>
  The innermost body of \<^verbatim>\<open>generate_association_rules\<close>, for one antecedent tuple of one
  itemset: the state is the list \<^verbatim>\<open>rules\<close>.
\<close>

definition rule_step ::
  "FrequentItemsets \<Rightarrow> rat \<Rightarrow> Itemset \<Rightarrow> rat \<Rightarrow> string list \<Rightarrow> Rule list
     \<Rightarrow> error + Rule list" where
  "rule_step frequent_itemsets min_confidence itemset sup_xy antecedent_tuple rules =
     (let ante = set antecedent_tuple;
          cons = itemset - ante;
          sup_x = dict_get frequent_itemsets ante 0;
          sup_y = dict_get frequent_itemsets cons 0
      in if sup_x = 0 \<or> sup_y = 0 then Inr rules
         else case true_div sup_xy sup_x of
                Inl e \<Rightarrow> Inl e
              | Inr conf \<Rightarrow>
                  if conf \<ge> min_confidence
                  then (case true_div conf sup_y of
                          Inl e \<Rightarrow> Inl e
                        | Inr lft \<Rightarrow>
                            Inr (rules @ [\<lparr>antecedent = ante, consequent = cons,
                                           support = sup_xy, confidence = conf, lift = lft\<rparr>]))
                  else Inr rules)"

text \<open>The body of the outer loop, for one entry of \<^verbatim>\<open>frequent_itemsets.items()\<close>.\<close>

definition rules_of_itemset ::
  "FrequentItemsets \<Rightarrow> rat \<Rightarrow> Itemset \<times> rat \<Rightarrow> Rule list \<Rightarrow> error + Rule list" where
  "rules_of_itemset frequent_itemsets min_confidence = (\<lambda>(itemset, sup_xy) rules.
     if card itemset < 2 then Inr rules
     else let items = sorted_list_of_set itemset
          in for_each (\<lambda>r. for_each (rule_step frequent_itemsets min_confidence itemset sup_xy)
                                     (combinations items r))
               [1 ..< length items] rules)"

definition generate_association_rules :: "FrequentItemsets \<Rightarrow> rat \<Rightarrow> error + Rule list" where
  "generate_association_rules frequent_itemsets min_confidence =
     for_each (rules_of_itemset frequent_itemsets min_confidence) frequent_itemsets []"

section \<open>Eclat (vertical format)\<close>

text \<open>\<^verbatim>\<open>build_vertical_representation\<close>: item to the set of transactions that hold it.\<close>

definition add_tid :: "string \<Rightarrow> string \<Rightarrow> (string, TIDSet) dict \<Rightarrow> (string, TIDSet) dict" where
  "add_tid tid item vertical =
     (let vertical' = (if item \<notin> fst ` set vertical
                       then AList.update item {} vertical else vertical)
      in AList.map_entry item (insert tid) vertical')"

definition build_vertical_representation :: "TransactionDB \<Rightarrow> (string, TIDSet) dict" where
  "build_vertical_representation transactions =
     fold (\<lambda>(tid, items). fold (add_tid tid) (sorted_list_of_set items)) transactions []"

text \<open>
  \<^verbatim>\<open>_eclat_recursive\<close>. \<^verbatim>\<open>items_tids.pop()\<close> takes the last pair of the list; the
  dictionary \<^verbatim>\<open>results\<close>, which the source updates in place, is passed and returned.
\<close>

function eclat_recursive ::
  "Itemset \<Rightarrow> (string \<times> TIDSet) list \<Rightarrow> int \<Rightarrow> FrequentItemsets \<Rightarrow> nat
     \<Rightarrow> error + FrequentItemsets" where
  "eclat_recursive prefix items_tids min_support_count results total_transactions =
     (if items_tids = [] then Inr results
      else
        let (item, tids) = last items_tids;
            items_tids' = butlast items_tids;
            new_itemset = prefix \<union> {item};
            support_count = card tids
        in if int support_count \<ge> min_support_count
           then (case true_div (of_nat support_count) (of_nat total_transactions) of
                   Inl e \<Rightarrow> Inl e
                 | Inr supp \<Rightarrow>
                     let results' = AList.update new_itemset supp results;
                         new_items_tids =
                           map (\<lambda>(other_item, other_tids). (other_item, tids \<inter> other_tids))
                             (filter (\<lambda>(other_item, other_tids).
                                        int (card (tids \<inter> other_tids)) \<ge> min_support_count)
                                items_tids')
                     in (case eclat_recursive new_itemset new_items_tids min_support_count
                                results' total_transactions of
                           Inl e \<Rightarrow> Inl e
                         | Inr results'' \<Rightarrow>
                             eclat_recursive prefix items_tids' min_support_count
                               results'' total_transactions))
           else eclat_recursive prefix items_tids' min_support_count results
                  total_transactions)"
  by pat_completeness auto
termination
proof (relation "measure (\<lambda>(p, its, m, r, t). length its)", goal_cases)
  case 1
  show ?case by simp
next
  case (2 p its)
  then show ?case by (cases its rule: rev_cases) (auto simp: le_imp_less_Suc)
next
  case (3 p its)
  then show ?case by (cases its rule: rev_cases) auto
next
  case (4 p its)
  then show ?case by (cases its rule: rev_cases) auto
qed

text \<open>\<^verbatim>\<open>eclat\<close>, with the two clock readings as for \<^verbatim>\<open>apriori\<close>.\<close>

definition eclat ::
  "TransactionDB \<Rightarrow> rat \<Rightarrow> rat \<Rightarrow> rat \<Rightarrow> error + (FrequentItemsets \<times> rat)" where
  "eclat transactions min_support t_start t_end =
     (let vertical = build_vertical_representation transactions;
          n_trans = length transactions;
          min_sup_count = max 1 \<lceil>min_support * of_nat n_trans\<rceil>;
          items_tids = vertical
      in case eclat_recursive {} items_tids min_sup_count [] n_trans of
           Inl e \<Rightarrow> Inl e
         | Inr results \<Rightarrow> Inr (results, t_end - t_start))"

definition generate_association_rules_eclat :: "FrequentItemsets \<Rightarrow> rat \<Rightarrow> error + Rule list" where
  "generate_association_rules_eclat frequent_itemsets min_confidence =
     generate_association_rules frequent_itemsets min_confidence"

section \<open>The same code over a heap of Python objects\<close>

text \<open>
  The definitions above pass every container by value. To state what a call does to the
  objects its caller holds, the objects a caller can hold a reference to live on a heap here:
  the Python sets (the item sets of the database and the TID-sets), the dictionary of the
  transactions, the dictionaries of the frequent itemsets and the lists of rules. A reference
  is a position in the heap and a new object is put at the end. Strings, numbers, frozensets
  and tuples are immutable and stay values; so do the containers that a function creates for
  its own bookkeeping and never returns (\<^verbatim>\<open>item_counts\<close>, \<^verbatim>\<open>support_counts\<close>, \<^verbatim>\<open>Lk\<close>,
  \<^verbatim>\<open>Ck\<close>, \<^verbatim>\<open>candidates\<close>, \<^verbatim>\<open>vertical\<close>, \<^verbatim>\<open>items_tids\<close>). A reference to an object of the wrong
  kind raises \<^verbatim>\<open>AttributeError\<close>, as a call of a method the object does not have.
\<close>

datatype obj =
    SetObj "string set"
  | DbObj "(string, nat) dict"
  | ResObj FrequentItemsets
  | RulesObj "Rule list"

type_synonym heap = "obj list"

definition alloc :: "heap \<Rightarrow> obj \<Rightarrow> nat \<times> heap" where
  "alloc h ob = (length h, h @ [ob])"

definition get_set :: "heap \<Rightarrow> nat \<Rightarrow> error + string set" where
  "get_set h a = (if a < length h
                  then (case h ! a of SetObj S \<Rightarrow> Inr S | _ \<Rightarrow> Inl AttributeError)
                  else Inl AttributeError)"

definition get_db :: "heap \<Rightarrow> nat \<Rightarrow> error + (string, nat) dict" where
  "get_db h a = (if a < length h
                 then (case h ! a of DbObj T \<Rightarrow> Inr T | _ \<Rightarrow> Inl AttributeError)
                 else Inl AttributeError)"

definition get_res :: "heap \<Rightarrow> nat \<Rightarrow> error + FrequentItemsets" where
  "get_res h a = (if a < length h
                  then (case h ! a of ResObj F \<Rightarrow> Inr F | _ \<Rightarrow> Inl AttributeError)
                  else Inl AttributeError)"

definition get_rules :: "heap \<Rightarrow> nat \<Rightarrow> error + Rule list" where
  "get_rules h a = (if a < length h
                    then (case h ! a of RulesObj rs \<Rightarrow> Inr rs | _ \<Rightarrow> Inl AttributeError)
                    else Inl AttributeError)"

subsection \<open>Apriori\<close>

text \<open>The two passes over \<^verbatim>\<open>transactions.values()\<close> read the item sets through the heap.\<close>

definition count_items_h :: "heap \<Rightarrow> nat list \<Rightarrow> error + (string, nat) dict" where
  "count_items_h h refs =
     for_each (\<lambda>r item_counts.
                 case get_set h r of
                   Inl e \<Rightarrow> Inl e
                 | Inr items \<Rightarrow> Inr (fold bump_item (sorted_list_of_set items) item_counts))
       refs []"

definition count_supports_h :: "heap \<Rightarrow> nat list \<Rightarrow> Itemset list \<Rightarrow> error + (Itemset, nat) dict" where
  "count_supports_h h refs Ck =
     for_each (\<lambda>r support_counts.
                 case get_set h r of
                   Inl e \<Rightarrow> Inl e
                 | Inr items \<Rightarrow> Inr (fold (count_hit items) Ck support_counts))
       refs (fold (\<lambda>c. AList.update c 0) Ck [])"

text \<open>\<^verbatim>\<open>frequents[c] = sup\<close> writes into the dictionary at the reference \<^verbatim>\<open>frequents\<close>.\<close>

definition keep_frequent_h ::
  "nat \<Rightarrow> nat \<Rightarrow> rat \<Rightarrow> Itemset \<Rightarrow> nat \<Rightarrow> heap \<times> Itemset list
     \<Rightarrow> error + (heap \<times> Itemset list)" where
  "keep_frequent_h frequents n_trans min_support c count = (\<lambda>(h, Lk).
     case true_div (of_nat count) (of_nat n_trans) of
       Inl e \<Rightarrow> Inl e
     | Inr supp \<Rightarrow>
         if supp \<ge> min_support
         then (case get_res h frequents of
                 Inl e \<Rightarrow> Inl e
               | Inr fr \<Rightarrow> Inr (h[frequents := ResObj (AList.update c supp fr)], Lk @ [c]))
         else Inr (h, Lk))"

definition next_level_h ::
  "nat \<Rightarrow> nat \<Rightarrow> rat \<Rightarrow> nat \<Rightarrow> Itemset list \<Rightarrow> nat \<Rightarrow> heap
     \<Rightarrow> error + (heap \<times> Itemset list)" where
  "next_level_h transactions frequents min_support n_trans Lk k h =
     (case get_db h transactions of
        Inl e \<Rightarrow> Inl e
      | Inr T \<Rightarrow>
          let Ck = generate_candidates Lk k
          in case count_supports_h h (map snd T) Ck of
               Inl e \<Rightarrow> Inl e
             | Inr support_counts \<Rightarrow>
                 for_each (\<lambda>(c, count). keep_frequent_h frequents n_trans min_support c count)
                   support_counts (h, []))"

lemma keep_frequent_h_level:
  "keep_frequent_h fr n s c cnt (h, acc) = Inr (h', Lk') \<Longrightarrow> set Lk' \<subseteq> insert c (set acc)"
  by (auto simp: keep_frequent_h_def true_div_def split: if_splits sum.splits)

lemma for_each_keep_frequent_h_level:
  "for_each (\<lambda>(c, count). keep_frequent_h fr n s c count) d (h, acc) = Inr (h', Lk')
   \<Longrightarrow> set Lk' \<subseteq> set acc \<union> fst ` set d"
proof (induction d arbitrary: h acc)
  case Nil
  then show ?case by simp
next
  case (Cons p d)
  obtain c cnt where p: "p = (c, cnt)" by (cases p)
  from Cons.prems p obtain h1 acc1 where
    1: "keep_frequent_h fr n s c cnt (h, acc) = Inr (h1, acc1)" and
    2: "for_each (\<lambda>(c, count). keep_frequent_h fr n s c count) d (h1, acc1) = Inr (h', Lk')"
    by (auto split: sum.splits)
  from Cons.IH[OF 2] keep_frequent_h_level[OF 1] p show ?case by auto
qed

lemma keys_count_supports_h:
  assumes "count_supports_h h refs Ck = Inr sc"
  shows "fst ` set sc = set Ck"
proof -
  let ?body = "\<lambda>r support_counts.
                 case get_set h r of
                   Inl e \<Rightarrow> Inl e
                 | Inr items \<Rightarrow> Inr (fold (count_hit items) Ck support_counts)"
  have A: "for_each ?body refs d = Inr sc \<Longrightarrow> fst ` set sc = fst ` set d" for d
  proof (induction refs arbitrary: d)
    case Nil
    then show ?case by simp
  next
    case (Cons r refs)
    from Cons.prems obtain items where
      "for_each ?body refs (fold (count_hit items) Ck d) = Inr sc"
      by (auto split: sum.splits)
    from Cons.IH[OF this] show ?case by (simp only: keys_fold_count_hit)
  qed
  from A[OF assms[unfolded count_supports_h_def]] show ?thesis
    by (simp only: keys_fold_update) simp
qed

lemma next_level_h_join:
  assumes "next_level_h T fr s n Lk k h = Inr (h', Lk')" "c \<in> set Lk'"
  shows "\<exists>a\<in>set Lk. \<exists>b\<in>set Lk. c = a \<union> b \<and> card c = k"
proof -
  from assms(1) obtain refs sc where
    sc: "count_supports_h h refs (generate_candidates Lk k) = Inr sc"
    and fe: "for_each (\<lambda>(c, count). keep_frequent_h fr n s c count) sc (h, []) = Inr (h', Lk')"
    by (auto simp: next_level_h_def Let_def split: sum.splits)
  from for_each_keep_frequent_h_level[OF fe] assms(2) keys_count_supports_h[OF sc]
  have "c \<in> set (generate_candidates Lk k)" by auto
  then show ?thesis by (rule generate_candidates_join)
qed

text \<open>The \<^verbatim>\<open>while Lk\<close> loop; the heap is its state.\<close>

function apriori_loop_h ::
  "nat \<Rightarrow> nat \<Rightarrow> rat \<Rightarrow> nat \<Rightarrow> Itemset list \<Rightarrow> nat \<Rightarrow> heap \<Rightarrow> error + heap" where
  "apriori_loop_h transactions frequents min_support n_trans Lk k h =
     (if Lk = [] then Inr h
      else case next_level_h transactions frequents min_support n_trans Lk k h of
             Inl e \<Rightarrow> Inl e
           | Inr (h', Lk') \<Rightarrow>
               apriori_loop_h transactions frequents min_support n_trans Lk' (k + 1) h')"
  by pat_completeness auto
termination
proof (relation "measure (\<lambda>(T, fr, s, n, Lk, k, h). level_measure Lk k)", goal_cases)
  case 1
  show ?case by simp
next
  case (2 T fr s n Lk k h x2 h' Lk')
  then have nl: "next_level_h T fr s n Lk k h = Inr (h', Lk')" by simp
  from 2 have "Lk \<noteq> []" by simp
  then have "level_measure Lk' (k + 1) < level_measure Lk k"
    using next_level_h_join[OF nl] by (rule level_measure_decreases)
  then show ?case by simp
qed

text \<open>
  \<^verbatim>\<open>apriori\<close>: \<^verbatim>\<open>transactions\<close> is a reference to the dictionary of the database. The
  dictionary \<^verbatim>\<open>frequents = {}\<close> is a new object; the call returns the reference to it.
\<close>

definition apriori_h ::
  "heap \<Rightarrow> nat \<Rightarrow> rat \<Rightarrow> rat \<Rightarrow> rat \<Rightarrow> error + ((nat \<times> rat) \<times> heap)" where
  "apriori_h h transactions min_support t_start t_end =
     (case get_db h transactions of
        Inl e \<Rightarrow> Inl e
      | Inr T \<Rightarrow>
          (case count_items_h h (map snd T) of
             Inl e \<Rightarrow> Inl e
           | Inr item_counts \<Rightarrow>
               let n_trans = length T;
                   (frequents, h1) = alloc h (ResObj [])
               in case for_each (\<lambda>(item, count).
                                   keep_frequent_h frequents n_trans min_support {item} count)
                         item_counts (h1, []) of
                    Inl e \<Rightarrow> Inl e
                  | Inr (h2, Lk) \<Rightarrow>
                      (case apriori_loop_h transactions frequents min_support n_trans Lk 2 h2 of
                         Inl e \<Rightarrow> Inl e
                       | Inr h3 \<Rightarrow> Inr ((frequents, t_end - t_start), h3))))"

subsection \<open>Rule generation\<close>

text \<open>
  \<^verbatim>\<open>frequent_itemsets\<close> is a reference to the dictionary of a mining call and \<^verbatim>\<open>rules\<close> the
  reference to the new list; \<^verbatim>\<open>rules.append\<close> writes into it.
\<close>

definition rule_step_h ::
  "nat \<Rightarrow> nat \<Rightarrow> rat \<Rightarrow> Itemset \<Rightarrow> rat \<Rightarrow> string list \<Rightarrow> heap \<Rightarrow> error + heap" where
  "rule_step_h frequent_itemsets rules min_confidence itemset sup_xy antecedent_tuple h =
     (case get_res h frequent_itemsets of
        Inl e \<Rightarrow> Inl e
      | Inr F \<Rightarrow>
          let ante = set antecedent_tuple;
              cons = itemset - ante;
              sup_x = dict_get F ante 0;
              sup_y = dict_get F cons 0
          in if sup_x = 0 \<or> sup_y = 0 then Inr h
             else case true_div sup_xy sup_x of
                    Inl e \<Rightarrow> Inl e
                  | Inr conf \<Rightarrow>
                      if conf \<ge> min_confidence
                      then (case true_div conf sup_y of
                              Inl e \<Rightarrow> Inl e
                            | Inr lft \<Rightarrow>
                                (case get_rules h rules of
                                   Inl e \<Rightarrow> Inl e
                                 | Inr rs \<Rightarrow>
                                     Inr (h[rules := RulesObj
                                            (rs @ [\<lparr>antecedent = ante, consequent = cons,
                                                     support = sup_xy, confidence = conf,
                                                     lift = lft\<rparr>])])))
                      else Inr h)"

definition rules_of_itemset_h ::
  "nat \<Rightarrow> nat \<Rightarrow> rat \<Rightarrow> Itemset \<times> rat \<Rightarrow> heap \<Rightarrow> error + heap" where
  "rules_of_itemset_h frequent_itemsets rules min_confidence = (\<lambda>(itemset, sup_xy) h.
     if card itemset < 2 then Inr h
     else let items = sorted_list_of_set itemset
          in for_each (\<lambda>r. for_each (rule_step_h frequent_itemsets rules min_confidence
                                         itemset sup_xy)
                                     (combinations items r))
               [1 ..< length items] h)"

definition generate_association_rules_h :: "heap \<Rightarrow> nat \<Rightarrow> rat \<Rightarrow> error + (nat \<times> heap)" where
  "generate_association_rules_h h frequent_itemsets min_confidence =
     (let (rules, h1) = alloc h (RulesObj [])
      in case get_res h1 frequent_itemsets of
           Inl e \<Rightarrow> Inl e
         | Inr F \<Rightarrow>
             (case for_each (rules_of_itemset_h frequent_itemsets rules min_confidence) F h1 of
                Inl e \<Rightarrow> Inl e
              | Inr h2 \<Rightarrow> Inr (rules, h2)))"

subsection \<open>Eclat\<close>

text \<open>
  \<^verbatim>\<open>vertical[item] = set()\<close> makes a new set object and \<^verbatim>\<open>vertical[item].add(tid)\<close> changes
  the object that the dictionary refers to.
\<close>

definition add_tid_h ::
  "string \<Rightarrow> string \<Rightarrow> (string, nat) dict \<times> heap \<Rightarrow> error + ((string, nat) dict \<times> heap)" where
  "add_tid_h tid item = (\<lambda>(vertical, h).
     let (vertical', h') =
           (if item \<notin> fst ` set vertical
            then (let (a, h1) = alloc h (SetObj {}) in (AList.update item a vertical, h1))
            else (vertical, h))
     in case map_of vertical' item of
          None \<Rightarrow> Inl KeyError
        | Some a \<Rightarrow>
            (case get_set h' a of
               Inl e \<Rightarrow> Inl e
             | Inr S \<Rightarrow> Inr (vertical', h'[a := SetObj (insert tid S)])))"

definition build_vertical_representation_h ::
  "heap \<Rightarrow> (string, nat) dict \<Rightarrow> error + ((string, nat) dict \<times> heap)" where
  "build_vertical_representation_h h T =
     for_each (\<lambda>(tid, r) (vertical, h).
                 case get_set h r of
                   Inl e \<Rightarrow> Inl e
                 | Inr items \<Rightarrow>
                     for_each (add_tid_h tid) (sorted_list_of_set items) (vertical, h))
       T ([], h)"

text \<open>
  One round of the loop that builds \<^verbatim>\<open>new_items_tids\<close>: \<^verbatim>\<open>tids & other_tids\<close> is a new set
  object, kept in the list when it is large enough.
\<close>

definition intersect_h ::
  "string set \<Rightarrow> int \<Rightarrow> string \<times> nat \<Rightarrow> (string \<times> nat) list \<times> heap
     \<Rightarrow> error + ((string \<times> nat) list \<times> heap)" where
  "intersect_h tids min_support_count = (\<lambda>(other_item, other_ref) (new_items_tids, h).
     case get_set h other_ref of
       Inl e \<Rightarrow> Inl e
     | Inr other_tids \<Rightarrow>
         let (inter, h') = alloc h (SetObj (tids \<inter> other_tids))
         in if int (card (tids \<inter> other_tids)) \<ge> min_support_count
            then Inr (new_items_tids @ [(other_item, inter)], h')
            else Inr (new_items_tids, h'))"

lemma for_each_intersect_h_length:
  "for_each (intersect_h tids m) its (acc, h) = Inr (new, h')
   \<Longrightarrow> length new \<le> length acc + length its"
proof (induction its arbitrary: acc h)
  case Nil
  then show ?case by simp
next
  case (Cons p its)
  obtain y r where p: "p = (y, r)" by (cases p)
  from Cons.prems p obtain acc1 h1 where
    1: "intersect_h tids m (y, r) (acc, h) = Inr (acc1, h1)" and
    2: "for_each (intersect_h tids m) its (acc1, h1) = Inr (new, h')"
    by (auto split: sum.splits)
  from 1 have "length acc1 \<le> length acc + 1"
    by (auto simp: intersect_h_def alloc_def Let_def split: sum.splits if_splits)
  with Cons.IH[OF 2] show ?case by simp
qed

function eclat_recursive_h ::
  "Itemset \<Rightarrow> (string \<times> nat) list \<Rightarrow> int \<Rightarrow> nat \<Rightarrow> nat \<Rightarrow> heap \<Rightarrow> error + heap" where
  "eclat_recursive_h prefix items_tids min_support_count results total_transactions h =
     (if items_tids = [] then Inr h
      else
        let (item, r) = last items_tids;
            items_tids' = butlast items_tids;
            new_itemset = prefix \<union> {item}
        in case get_set h r of
             Inl e \<Rightarrow> Inl e
           | Inr tids \<Rightarrow>
               let support_count = card tids
               in if int support_count \<ge> min_support_count
                  then (case true_div (of_nat support_count) (of_nat total_transactions) of
                          Inl e \<Rightarrow> Inl e
                        | Inr supp \<Rightarrow>
                            (case get_res h results of
                               Inl e \<Rightarrow> Inl e
                             | Inr res \<Rightarrow>
                                 let h1 = h[results := ResObj (AList.update new_itemset supp res)]
                                 in (case for_each (intersect_h tids min_support_count)
                                            items_tids' ([], h1) of
                                       Inl e \<Rightarrow> Inl e
                                     | Inr (new_items_tids, h2) \<Rightarrow>
                                         (case eclat_recursive_h new_itemset new_items_tids
                                                 min_support_count results total_transactions h2 of
                                            Inl e \<Rightarrow> Inl e
                                          | Inr h3 \<Rightarrow>
                                              eclat_recursive_h prefix items_tids'
                                                min_support_count results total_transactions h3))))
                  else eclat_recursive_h prefix items_tids' min_support_count results
                         total_transactions h)"
  by pat_completeness auto
termination
proof (relation "measure (\<lambda>(p, its, m, r, t, h). length its)", goal_cases)
  case 1
  show ?case by simp
next
  case (2 p its m r t h x item ref its' new tids sc supp res h1 x2 new_its h2)
  then have "for_each (intersect_h tids m) (butlast its) ([], h1) = Inr (new_its, h2)" by simp
  from for_each_intersect_h_length[OF this] 2 show ?case
    by (cases its rule: rev_cases) auto
next
  case (3 p its)
  then show ?case by (cases its rule: rev_cases) auto
next
  case (4 p its)
  then show ?case by (cases its rule: rev_cases) auto
qed

definition eclat_h ::
  "heap \<Rightarrow> nat \<Rightarrow> rat \<Rightarrow> rat \<Rightarrow> rat \<Rightarrow> error + ((nat \<times> rat) \<times> heap)" where
  "eclat_h h transactions min_support t_start t_end =
     (case get_db h transactions of
        Inl e \<Rightarrow> Inl e
      | Inr T \<Rightarrow>
          (case build_vertical_representation_h h T of
             Inl e \<Rightarrow> Inl e
           | Inr (vertical, h1) \<Rightarrow>
               let n_trans = length T;
                   min_sup_count = max 1 \<lceil>min_support * of_nat n_trans\<rceil>;
                   items_tids = vertical;
                   (results, h2) = alloc h1 (ResObj [])
               in case eclat_recursive_h {} items_tids min_sup_count results n_trans h2 of
                    Inl e \<Rightarrow> Inl e
                  | Inr h3 \<Rightarrow> Inr ((results, t_end - t_start), h3)))"

section \<open>Notions used in the statements\<close>

text \<open>
  The support of an itemset as the specification defines it: the number of transactions
  whose items include the itemset, divided by the number of transactions. A Python dictionary
  has distinct keys and a Python set is finite; the theorems about a transaction database
  assume both (\<open>distinct (map fst T)\<close> and \<open>finite_items T\<close>). The other definitions name
  what the two engines collect, the pure result of each loop and how a heap is read back
  into values.
\<close>

definition superset_count :: "TransactionDB \<Rightarrow> Itemset \<Rightarrow> nat" where
  "superset_count T I = length (filter (\<lambda>(tid, items). I \<subseteq> items) T)"

definition relative_support :: "TransactionDB \<Rightarrow> Itemset \<Rightarrow> rat" where
  "relative_support T I = of_nat (superset_count T I) / of_nat (length T)"

definition item_universe :: "TransactionDB \<Rightarrow> string set" where
  "item_universe T = \<Union>(snd ` set T)"

definition finite_items :: "TransactionDB \<Rightarrow> bool" where
  "finite_items T = (\<forall>items \<in> snd ` set T. finite items)"

definition keep_pure :: "nat \<Rightarrow> rat \<Rightarrow> Itemset \<times> nat \<Rightarrow> FrequentItemsets \<Rightarrow> FrequentItemsets" where
  "keep_pure n s = (\<lambda>(c, cnt) fr.
     if s \<le> of_nat cnt / of_nat n then AList.update c (of_nat cnt / of_nat n) fr else fr)"

definition frequent :: "TransactionDB \<Rightarrow> rat \<Rightarrow> Itemset \<Rightarrow> bool" where
  "frequent T s I \<longleftrightarrow> I \<noteq> {} \<and> I \<subseteq> item_universe T \<and> s \<le> relative_support T I"

definition tidset :: "TransactionDB \<Rightarrow> Itemset \<Rightarrow> TIDSet" where
  "tidset T I = {tid. \<exists>items. (tid, items) \<in> set T \<and> I \<subseteq> items}"

definition found :: "TransactionDB \<Rightarrow> int \<Rightarrow> Itemset \<Rightarrow> string set \<Rightarrow> Itemset \<Rightarrow> bool" where
  "found T msc prefix X I \<longleftrightarrow>
     (\<exists>S. S \<noteq> {} \<and> S \<subseteq> X \<and> I = prefix \<union> S \<and> msc \<le> int (card (tidset T I)))"

definition eclat_frequent :: "TransactionDB \<Rightarrow> rat \<Rightarrow> Itemset \<Rightarrow> bool" where
  "eclat_frequent T s I \<longleftrightarrow>
     I \<noteq> {} \<and> I \<subseteq> item_universe T
     \<and> max 1 \<lceil>s * of_nat (length T)\<rceil> \<le> int (superset_count T I)"

definition emit :: "FrequentItemsets \<Rightarrow> rat \<Rightarrow> Itemset \<Rightarrow> rat \<Rightarrow> string list \<Rightarrow> Rule list" where
  "emit F c itemset sup_xy tup =
     (let sup_x = dict_get F (set tup) 0; sup_y = dict_get F (itemset - set tup) 0
      in if sup_x \<noteq> 0 \<and> sup_y \<noteq> 0 \<and> c \<le> sup_xy / sup_x
         then [\<lparr>antecedent = set tup, consequent = itemset - set tup, support = sup_xy,
                confidence = sup_xy / sup_x, lift = sup_xy / sup_x / sup_y\<rparr>]
         else [])"

definition emit_itemset :: "FrequentItemsets \<Rightarrow> rat \<Rightarrow> Itemset \<times> rat \<Rightarrow> Rule list" where
  "emit_itemset F c = (\<lambda>(itemset, sup_xy).
     if card itemset < 2 then []
     else concat (map (\<lambda>r. concat (map (emit F c itemset sup_xy)
                                        (combinations (sorted_list_of_set itemset) r)))
                   [1 ..< length (sorted_list_of_set itemset)]))"

definition kept :: "heap \<Rightarrow> nat \<Rightarrow> heap \<Rightarrow> bool" where
  "kept h0 n h \<longleftrightarrow> length h0 \<le> length h \<and> take (length h0) h = h0 \<and> n \<le> length h"

definition fresh_refs :: "heap \<Rightarrow> (string, nat) dict \<Rightarrow> bool" where
  "fresh_refs h0 vertical \<longleftrightarrow> (\<forall>a \<in> snd ` set vertical. length h0 \<le> a)"

definition set_at :: "heap \<Rightarrow> nat \<Rightarrow> string set" where
  "set_at h r = (case get_set h r of Inl e \<Rightarrow> {} | Inr S \<Rightarrow> S)"

definition snapshot :: "heap \<Rightarrow> (string, nat) dict \<Rightarrow> TransactionDB" where
  "snapshot h Tr = map (\<lambda>(tid, r). (tid, set_at h r)) Tr"

definition valid_refs :: "heap \<Rightarrow> nat list \<Rightarrow> bool" where
  "valid_refs h refs \<longleftrightarrow> list_all (\<lambda>r. case get_set h r of Inl e \<Rightarrow> False | Inr S \<Rightarrow> True) refs"

definition with_result :: "heap \<Rightarrow> FrequentItemsets \<times> Itemset list \<Rightarrow> heap \<times> Itemset list" where
  "with_result h0 = (\<lambda>(fr, Lk). (h0 @ [ResObj fr], Lk))"

definition sets_preserved :: "heap \<Rightarrow> heap \<Rightarrow> bool" where
  "sets_preserved h h' \<longleftrightarrow> (\<forall>a S. get_set h a = Inr S \<longrightarrow> get_set h' a = Inr S)"

definition vertical_ok :: "heap \<Rightarrow> (string, nat) dict \<Rightarrow> bool" where
  "vertical_ok h vh \<longleftrightarrow> valid_refs h (map snd vh) \<and> distinct (map snd vh)"

definition building :: "heap \<Rightarrow> (string, nat) dict \<times> heap \<Rightarrow> (string, TIDSet) dict \<Rightarrow> bool" where
  "building h0 = (\<lambda>(vh, h) v. vertical_ok h vh \<and> snapshot h vh = v
                              \<and> kept h0 (length h0) h \<and> fresh_refs h0 vh)"

definition recorded :: "heap \<Rightarrow> nat \<Rightarrow> FrequentItemsets \<Rightarrow> heap \<Rightarrow> bool" where
  "recorded h results res' h' \<longleftrightarrow> get_res h' results = Inr res' \<and> sets_preserved h h'"

definition returned :: "FrequentItemsets \<times> rat \<Rightarrow> (nat \<times> rat) \<times> heap \<Rightarrow> bool" where
  "returned = (\<lambda>(fr, el) ((r, el'), h'). el' = el \<and> get_res h' r = Inr fr)"

definition valid_db :: "heap \<Rightarrow> nat \<Rightarrow> bool" where
  "valid_db h db \<longleftrightarrow>
     (case get_db h db of
        Inl e \<Rightarrow> False
      | Inr Tr \<Rightarrow> distinct (map fst Tr)
                 \<and> list_all (\<lambda>r. case get_set h r of Inl e \<Rightarrow> False | Inr S \<Rightarrow> finite S)
                      (map snd Tr))"


definition example_db :: TransactionDB where
  "example_db = [(''t1'', {''a'', ''b''}), (''t2'', {''a'', ''b'', ''c''}),
                 (''t3'', {''a''}), (''t4'', {''b'', ''c''})]"


definition example_result :: FrequentItemsets where
  "example_result = [({''a''}, 3 / 4), ({''b''}, 3 / 4), ({''c''}, 1 / 2),
                     ({''a'', ''b''}, 1 / 2), ({''b'', ''c''}, 1 / 2)]"

definition unordered_result :: FrequentItemsets where
  "unordered_result = [({''a''}, 1 / 4), ({''b''}, 1), ({''a'', ''b''}, 1 / 2)]"

definition example_heap :: heap where
  "example_heap = [SetObj {''a'', ''b''}, SetObj {''a'', ''b'', ''c''}, SetObj {''a''},
                   SetObj {''b'', ''c''},
                   DbObj [(''t1'', 0), (''t2'', 1), (''t3'', 2), (''t4'', 3)],
                   ResObj example_result]"




definition supports_in_unit_interval :: "FrequentItemsets \<Rightarrow> bool" where
  "supports_in_unit_interval F \<longleftrightarrow> (\<forall>(I, v) \<in> set F. 0 \<le> v \<and> v \<le> 1)"

lemma superset_count_Nil [simp]: "superset_count [] I = 0"
  by (simp add: superset_count_def)

lemma superset_count_Cons [simp]:
  "superset_count ((t, X) # T) I = (if I \<subseteq> X then 1 else 0) + superset_count T I"
  by (simp add: superset_count_def)

subsection \<open>Counting single items\<close>

lemma bump_item_map_of:
  "map_of (bump_item x d) = (map_of d)(x \<mapsto> dict_get d x 0 + 1)"
  by (simp add: bump_item_def update_conv')

lemma bump_item_get:
  "dict_get (bump_item x d) i 0 = (if i = x then dict_get d x 0 + 1 else dict_get d i 0)"
  by (simp add: dict_get_def bump_item_map_of)

lemma bump_item_distinct: "distinct (map fst d) \<Longrightarrow> distinct (map fst (bump_item x d))"
  by (simp add: bump_item_def distinct_update)

lemma fold_bump_item_map_of:
  "distinct xs \<Longrightarrow>
   map_of (fold bump_item xs d) i =
     (if i \<in> set xs then Some (dict_get d i 0 + 1) else map_of d i)"
proof (induction xs arbitrary: d)
  case Nil
  then show ?case by simp
next
  case (Cons x xs)
  then show ?case
    by (auto simp: bump_item_map_of bump_item_get)
qed

lemma fold_bump_item_distinct:
  "distinct (map fst d) \<Longrightarrow> distinct (map fst (fold bump_item xs d))"
  by (induction xs arbitrary: d) (simp_all add: bump_item_distinct)

lemma count_items_fold:
  assumes "\<forall>X\<in>set Xs. finite X"
  shows "map_of (fold (\<lambda>items. fold bump_item (sorted_list_of_set items)) Xs d) i =
         (if length (filter (\<lambda>X. i \<in> X) Xs) = 0 then map_of d i
          else Some (dict_get d i 0 + length (filter (\<lambda>X. i \<in> X) Xs)))"
  using assms
proof (induction Xs arbitrary: d)
  case Nil
  then show ?case by simp
next
  case (Cons X Xs)
  let ?d = "fold bump_item (sorted_list_of_set X) d"
  from Cons.prems have fin: "finite X" and rest: "\<forall>X\<in>set Xs. finite X" by simp_all
  have step: "map_of ?d i = (if i \<in> X then Some (dict_get d i 0 + 1) else map_of d i)"
    using fin by (simp add: fold_bump_item_map_of)
  show ?case
    using Cons.IH[OF rest, of ?d] step by (auto simp: dict_get_def)
qed

lemma count_items_distinct: "distinct (map fst (count_items T))"
proof -
  have "distinct (map fst d) \<Longrightarrow>
        distinct (map fst (fold (\<lambda>items. fold bump_item (sorted_list_of_set items)) Xs d))" for Xs d
    by (induction Xs arbitrary: d) (simp_all add: fold_bump_item_distinct)
  from this[of "[]" "map snd T"] show ?thesis
    unfolding count_items_def by simp
qed

lemma filter_map_snd_count:
  "length (filter (\<lambda>X. i \<in> X) (map snd T)) = superset_count T {i}"
  by (induction T) auto

lemma in_universe_iff_count: "i \<in> item_universe T \<longleftrightarrow> superset_count T {i} \<noteq> 0"
  by (induction T) (auto simp: item_universe_def)

lemma count_items_map_of:
  assumes "finite_items T"
  shows "map_of (count_items T) i =
           (if i \<in> item_universe T then Some (superset_count T {i}) else None)"
proof -
  have fin: "\<forall>X\<in>set (map snd T). finite X"
    using assms by (simp add: finite_items_def)
  show ?thesis
    unfolding count_items_def
    by (simp only: count_items_fold[OF fin] filter_map_snd_count in_universe_iff_count)
       (simp add: dict_get_def)
qed

subsection \<open>The counting pass\<close>

lemma count_hit_map_of:
  "map_of (count_hit items c d) =
     (if c \<subseteq> items then (map_of d)(c := map_option (\<lambda>n. n + 1) (map_of d c)) else map_of d)"
  by (auto simp: count_hit_def map_of_map_entry split: option.splits)

lemma count_hit_distinct: "distinct (map fst d) \<Longrightarrow> distinct (map fst (count_hit items c d))"
  by (simp add: count_hit_def distinct_map_entry)

lemma fold_count_hit_map_of:
  "distinct Ck \<Longrightarrow>
   map_of (fold (count_hit items) Ck d) c =
     (if c \<in> set Ck \<and> c \<subseteq> items then map_option (\<lambda>n. n + 1) (map_of d c) else map_of d c)"
proof (induction Ck arbitrary: d)
  case Nil
  then show ?case by simp
next
  case (Cons a Ck)
  then show ?case by (auto simp: count_hit_map_of)
qed

lemma fold_count_hit_distinct:
  "distinct (map fst d) \<Longrightarrow> distinct (map fst (fold (count_hit items) Ck d))"
  by (induction Ck arbitrary: d) (simp_all add: count_hit_distinct)

lemma count_pass_map_of:
  assumes "distinct Ck"
  shows "map_of (fold (\<lambda>items. fold (count_hit items) Ck) (map snd T) d) c =
           (if c \<in> set Ck then map_option (\<lambda>n. n + superset_count T c) (map_of d c)
            else map_of d c)"
proof (induction T arbitrary: d)
  case Nil
  then show ?case by (simp add: option.map_ident)
next
  case (Cons p T)
  obtain t X where p: "p = (t, X)" by (cases p)
  show ?case
    by (simp add: p Cons.IH fold_count_hit_map_of[OF assms] option.map_comp comp_def)
qed

lemma count_pass_distinct:
  "distinct (map fst d) \<Longrightarrow>
   distinct (map fst (fold (\<lambda>items. fold (count_hit items) Ck) Xs d))"
  by (induction Xs arbitrary: d) (simp_all add: fold_count_hit_distinct)

lemma fold_update0_map_of:
  "map_of (fold (\<lambda>c. AList.update c (0::nat)) Ck d) c =
     (if c \<in> set Ck then Some 0 else map_of d c)"
  by (induction Ck arbitrary: d) (auto simp: update_conv')

lemma fold_update0_distinct:
  "distinct (map fst d) \<Longrightarrow> distinct (map fst (fold (\<lambda>c. AList.update c (0::nat)) Ck d))"
  by (induction Ck arbitrary: d) (simp_all add: distinct_update)

lemma count_supports_map_of:
  assumes "distinct Ck"
  shows "map_of (count_supports T Ck) c =
           (if c \<in> set Ck then Some (superset_count T c) else None)"
  unfolding count_supports_def
  by (simp only: count_pass_map_of[OF assms] fold_update0_map_of) simp

lemma count_supports_distinct: "distinct (map fst (count_supports T Ck))"
  unfolding count_supports_def
  by (intro count_pass_distinct fold_update0_distinct) simp

subsection \<open>Building a level\<close>

lemma keep_frequent_eq:
  "0 < n \<Longrightarrow> keep_frequent n s c cnt (fr, acc) =
     Inr (keep_pure n s (c, cnt) fr,
          if s \<le> of_nat cnt / of_nat n then acc @ [c] else acc)"
  by (simp add: keep_frequent_def true_div_def keep_pure_def)

lemma for_each_keep_frequent:
  assumes "0 < n"
  shows "for_each (\<lambda>(c, cnt). keep_frequent n s c cnt) d (fr, acc) =
           Inr (fold (keep_pure n s) d fr,
                acc @ map fst (filter (\<lambda>(c, cnt). s \<le> of_nat cnt / of_nat n) d))"
proof (induction d arbitrary: fr acc)
  case Nil
  then show ?case by simp
next
  case (Cons p d)
  obtain c cnt where p: "p = (c, cnt)" by (cases p)
  show ?case
    by (simp add: p keep_frequent_eq[OF assms] Cons.IH)
qed

lemma keep_pure_map_of:
  "map_of (keep_pure n s (c, cnt) fr) =
     (if s \<le> of_nat cnt / of_nat n then (map_of fr)(c \<mapsto> of_nat cnt / of_nat n)
      else map_of fr)"
  by (simp add: keep_pure_def update_conv')

lemma fold_keep_pure_map_of:
  assumes "distinct (map fst d)"
  shows "map_of (fold (keep_pure n s) d fr) I =
           (case map_of d I of
              Some cnt \<Rightarrow> if s \<le> of_nat cnt / of_nat n then Some (of_nat cnt / of_nat n)
                          else map_of fr I
            | None \<Rightarrow> map_of fr I)"
  using assms
proof (induction d arbitrary: fr)
  case Nil
  then show ?case by simp
next
  case (Cons p d)
  obtain c cnt where p: "p = (c, cnt)" by (cases p)
  from Cons.prems p have notin: "c \<notin> fst ` set d" and dist: "distinct (map fst d)" by auto
  from notin have none: "map_of d c = None" by (simp add: map_of_eq_None_iff)
  show ?case
    using none by (auto simp: p Cons.IH[OF dist] keep_pure_map_of split: option.splits)
qed

lemma keep_pure_distinct:
  "distinct (map fst fr) \<Longrightarrow> distinct (map fst (keep_pure n s p fr))"
  by (cases p) (simp add: keep_pure_def distinct_update)

lemma fold_keep_pure_distinct:
  "distinct (map fst fr) \<Longrightarrow> distinct (map fst (fold (keep_pure n s) d fr))"
  by (induction d arbitrary: fr) (simp_all add: keep_pure_distinct)

lemma kept_keys_set:
  assumes "distinct (map fst d)"
  shows "set (map fst (filter (\<lambda>(c, cnt). P cnt) d)) = {c. \<exists>cnt. map_of d c = Some cnt \<and> P cnt}"
  using assms by (auto simp: image_iff)

lemma kept_keys_distinct:
  "distinct (map fst d) \<Longrightarrow> distinct (map fst (filter P d))"
  by (rule distinct_map_filter)

subsection \<open>Combinations\<close>

lemma set_combinations:
  "distinct xs \<Longrightarrow> set ` set (combinations xs r) = {S. S \<subseteq> set xs \<and> card S = r}"
proof (induction xs r rule: combinations.induct)
  case (1 xs)
  have "{S. S \<subseteq> set xs \<and> card S = 0} = {{}}"
    by (auto simp: finite_subset)
  then show ?case by simp
next
  case (2 r)
  then show ?case by auto
next
  case (3 x xs r)
  from "3.prems" have x: "x \<notin> set xs" and dist: "distinct xs" by simp_all
  have "{S. S \<subseteq> set (x # xs) \<and> card S = Suc r} =
        insert x ` {S. S \<subseteq> set xs \<and> card S = r} \<union> {S. S \<subseteq> set xs \<and> card S = Suc r}"
    (is "?L = ?A \<union> ?B")
  proof (intro equalityI subsetI)
    fix S assume "S \<in> ?L"
    then have S: "S \<subseteq> insert x (set xs)" "card S = Suc r" by simp_all
    from S(2) have fin: "finite S" by (intro card_ge_0_finite) simp
    show "S \<in> ?A \<union> ?B"
    proof (cases "x \<in> S")
      case True
      then have "S = insert x (S - {x})" by auto
      moreover have "S - {x} \<subseteq> set xs" using S(1) by auto
      moreover have "card (S - {x}) = r" using S(2) True fin by simp
      ultimately show ?thesis by blast
    next
      case False
      with S show ?thesis by auto
    qed
  next
    fix S assume "S \<in> ?A \<union> ?B"
    then show "S \<in> ?L"
    proof
      assume "S \<in> ?A"
      then obtain S' where S': "S = insert x S'" "S' \<subseteq> set xs" "card S' = r" by auto
      then have "finite S'" by (meson finite_set finite_subset)
      with S' x show ?thesis by (auto simp: card_insert_if)
    next
      assume "S \<in> ?B"
      then show ?thesis by auto
    qed
  qed
  moreover have "set ` set (map ((#) x) (combinations xs r)) = insert x ` (set ` set (combinations xs r))"
    by (auto simp: image_iff)
  ultimately show ?case
    using "3.IH"[OF dist] by (simp add: image_Un del: image_set)
qed

lemma card_pred_subsets:
  assumes "finite u" "card u = k" "0 < k"
  shows "{S. S \<subseteq> u \<and> card S = k - 1} = (\<lambda>x. u - {x}) ` u"
proof (intro equalityI subsetI)
  fix S assume "S \<in> {S. S \<subseteq> u \<and> card S = k - 1}"
  then have S: "S \<subseteq> u" "card S = k - 1" by simp_all
  with assms have "card (u - S) = 1"
    by (simp add: card_Diff_subset finite_subset)
  then obtain x where x: "u - S = {x}" by (auto simp: card_1_singleton_iff)
  with S(1) have "S = u - {x}" by auto
  moreover from x have "x \<in> u" by auto
  ultimately show "S \<in> (\<lambda>x. u - {x}) ` u" by blast
next
  fix S assume "S \<in> (\<lambda>x. u - {x}) ` u"
  with assms show "S \<in> {S. S \<subseteq> u \<and> card S = k - 1}" by auto
qed

lemma all_subsets_frequent_iff:
  assumes "finite u" "card u = k" "0 < k"
  shows "all_subsets_frequent Lk k u \<longleftrightarrow> (\<forall>x\<in>u. u - {x} \<in> set Lk)"
proof -
  have "all_subsets_frequent Lk k u \<longleftrightarrow>
        (\<forall>S \<in> set ` set (combinations (sorted_list_of_set u) (k - 1)). S \<in> set Lk)"
    by (simp add: all_subsets_frequent_def list_all_iff)
  also have "set ` set (combinations (sorted_list_of_set u) (k - 1)) = {S. S \<subseteq> u \<and> card S = k - 1}"
    using assms(1) by (simp add: set_combinations del: image_set)
  also have "\<dots> = (\<lambda>x. u - {x}) ` u"
    using assms by (rule card_pred_subsets)
  finally show ?thesis by auto
qed

subsection \<open>Candidate generation\<close>

lemma set_add_set [simp]: "set (set_add x xs) = insert x (set xs)"
  by (auto simp: set_add_def)

lemma set_add_distinct: "distinct xs \<Longrightarrow> distinct (set_add x xs)"
  by (simp add: set_add_def)

lemma join_pair_set:
  "set (join_pair Lk k (a, b) acc) =
     (if card (a \<union> b) = k \<and> all_subsets_frequent Lk k (a \<union> b) then insert (a \<union> b) (set acc)
      else set acc)"
  by (simp add: join_pair_def Let_def)

lemma join_pair_distinct: "distinct acc \<Longrightarrow> distinct (join_pair Lk k p acc)"
  by (cases p) (simp add: join_pair_def Let_def set_add_distinct)

lemma fold_join_pair_set:
  "set (fold (join_pair Lk k) ps acc) =
     set acc \<union> {a \<union> b | a b. (a, b) \<in> set ps \<and> card (a \<union> b) = k
                                \<and> all_subsets_frequent Lk k (a \<union> b)}"
proof (induction ps arbitrary: acc)
  case Nil
  then show ?case by simp
next
  case (Cons p ps)
  obtain a b where p: "p = (a, b)" by (cases p)
  show ?case
    unfolding p fold_simps Cons.IH join_pair_set by auto
qed

lemma fold_join_pair_distinct:
  "distinct acc \<Longrightarrow> distinct (fold (join_pair Lk k) ps acc)"
  by (induction ps arbitrary: acc) (simp_all add: join_pair_distinct)

lemma generate_candidates_distinct: "distinct (generate_candidates Lk k)"
  unfolding generate_candidates_def by (rule fold_join_pair_distinct) simp

lemma index_pairs_mem:
  "a \<in> set xs \<Longrightarrow> b \<in> set xs \<Longrightarrow> a \<noteq> b
   \<Longrightarrow> (a, b) \<in> set (index_pairs xs) \<or> (b, a) \<in> set (index_pairs xs)"
  by (induction xs) auto

lemma generate_candidates_set:
  assumes "2 \<le> k"
  shows "set (generate_candidates Lk k) = {u. card u = k \<and> (\<forall>x\<in>u. u - {x} \<in> set Lk)}"
proof (intro equalityI subsetI)
  fix u assume "u \<in> set (generate_candidates Lk k)"
  then obtain a b where u: "u = a \<union> b" "card u = k" "all_subsets_frequent Lk k u"
    unfolding generate_candidates_def fold_join_pair_set by auto
  from u(2) assms have "finite u" by (intro card_ge_0_finite) simp
  with u(2,3) assms have "\<forall>x\<in>u. u - {x} \<in> set Lk"
    by (simp add: all_subsets_frequent_iff)
  with u(2) show "u \<in> {u. card u = k \<and> (\<forall>x\<in>u. u - {x} \<in> set Lk)}" by simp
next
  fix u assume "u \<in> {u. card u = k \<and> (\<forall>x\<in>u. u - {x} \<in> set Lk)}"
  then have u: "card u = k" "\<forall>x\<in>u. u - {x} \<in> set Lk" by simp_all
  from u(1) assms have fin: "finite u" by (intro card_ge_0_finite) simp
  from u(1) assms have "2 \<le> card u" by simp
  then obtain x y where xy: "x \<in> u" "y \<in> u" "x \<noteq> y"
    by (metis card_2_iff' card_le_Suc0_iff_eq fin not_less_eq_eq numeral_2_eq_2)
  let ?a = "u - {x}" and ?b = "u - {y}"
  from xy u(2) have mem: "?a \<in> set Lk" "?b \<in> set Lk" by simp_all
  from xy have ne: "?a \<noteq> ?b" by auto
  from xy have un: "?a \<union> ?b = u" "?b \<union> ?a = u" by auto
  have asf: "all_subsets_frequent Lk k u"
    using fin u assms by (simp add: all_subsets_frequent_iff)
  from index_pairs_mem[OF mem ne]
  show "u \<in> set (generate_candidates Lk k)"
    unfolding generate_candidates_def fold_join_pair_set
  proof
    assume "(?a, ?b) \<in> set (index_pairs Lk)"
    with un(1) u(1) asf show "u \<in> set [] \<union> {a \<union> b |a b. (a, b) \<in> set (index_pairs Lk) \<and>
            card (a \<union> b) = k \<and> all_subsets_frequent Lk k (a \<union> b)}"
      by (intro UnI2 CollectI exI[of _ ?a] exI[of _ ?b]) simp
  next
    assume "(?b, ?a) \<in> set (index_pairs Lk)"
    with un(2) u(1) asf show "u \<in> set [] \<union> {a \<union> b |a b. (a, b) \<in> set (index_pairs Lk) \<and>
            card (a \<union> b) = k \<and> all_subsets_frequent Lk k (a \<union> b)}"
      by (intro UnI2 CollectI exI[of _ ?b] exI[of _ ?a]) simp
  qed
qed

subsection \<open>Support is antitone\<close>

lemma superset_count_antitone: "J \<subseteq> I \<Longrightarrow> superset_count T I \<le> superset_count T J"
proof (induction T)
  case Nil
  then show ?case by simp
next
  case (Cons p T)
  obtain t X where p: "p = (t, X)" by (cases p)
  from Cons show ?case unfolding p by (cases "I \<subseteq> X") auto
qed

lemma relative_support_antitone: "J \<subseteq> I \<Longrightarrow> relative_support T I \<le> relative_support T J"
  unfolding relative_support_def
  by (intro divide_right_mono) (simp_all add: superset_count_antitone)

lemma frequent_subset:
  "frequent T s I \<Longrightarrow> J \<subseteq> I \<Longrightarrow> J \<noteq> {} \<Longrightarrow> frequent T s J"
  unfolding frequent_def using relative_support_antitone[of J I T] by auto

lemma finite_item_universe: "finite_items T \<Longrightarrow> finite (item_universe T)"
  by (auto simp: finite_items_def item_universe_def)

lemma frequent_finite: "finite_items T \<Longrightarrow> frequent T s I \<Longrightarrow> finite I"
  using finite_item_universe finite_subset unfolding frequent_def by blast

subsection \<open>One level\<close>

lemma level_candidates:
  assumes k: "2 \<le> k"
    and Lk: "set Lk = {I. frequent T s I \<and> card I = k - 1}"
  shows "{u \<in> set (generate_candidates Lk k). s \<le> relative_support T u} =
         {I. frequent T s I \<and> card I = k}"
proof (intro equalityI subsetI)
  fix u assume "u \<in> {u \<in> set (generate_candidates Lk k). s \<le> relative_support T u}"
  then have u: "card u = k" "\<forall>x\<in>u. u - {x} \<in> set Lk" "s \<le> relative_support T u"
    by (simp_all add: generate_candidates_set[OF k])
  from u(1) k have fin: "finite u" by (intro card_ge_0_finite) simp
  have "u \<subseteq> item_universe T"
  proof
    fix x assume x: "x \<in> u"
    from u(1) k fin x obtain y where y: "y \<in> u" "y \<noteq> x"
      by (metis card_le_Suc0_iff_eq not_less_eq_eq numeral_2_eq_2)
    from u(2) y(1) Lk have "u - {y} \<subseteq> item_universe T" by (auto simp: frequent_def)
    with x y(2) show "x \<in> item_universe T" by auto
  qed
  moreover from u(1) k have "u \<noteq> {}" by auto
  ultimately show "u \<in> {I. frequent T s I \<and> card I = k}"
    using u(1,3) by (simp add: frequent_def)
next
  fix I assume "I \<in> {I. frequent T s I \<and> card I = k}"
  then have I: "frequent T s I" "card I = k" by simp_all
  from I(2) k have fin: "finite I" by (intro card_ge_0_finite) simp
  have "\<forall>x\<in>I. I - {x} \<in> set Lk"
  proof
    fix x assume x: "x \<in> I"
    with I(2) fin have c: "card (I - {x}) = k - 1" by simp
    have ne: "I - {x} \<noteq> {}"
    proof
      assume e: "I - {x} = {}"
      have "card (I - {x}) = 0" unfolding e by simp
      with c k show False by simp
    qed
    have sub: "I - {x} \<subseteq> I" by (rule Diff_subset)
    have "frequent T s (I - {x})" using I(1) sub ne by (rule frequent_subset)
    with c Lk show "I - {x} \<in> set Lk" by simp
  qed
  with I show "I \<in> {u \<in> set (generate_candidates Lk k). s \<le> relative_support T u}"
    by (simp add: generate_candidates_set[OF k] frequent_def)
qed

lemma next_level_correct:
  assumes n: "0 < length T"
    and k: "2 \<le> k"
    and Lk: "set Lk = {I. frequent T s I \<and> card I = k - 1}"
  shows "\<exists>fr' Lk'. next_level T s (length T) Lk k fr = Inr (fr', Lk')
           \<and> (distinct (map fst fr) \<longrightarrow> distinct (map fst fr'))
           \<and> (\<forall>I. map_of fr' I = (if frequent T s I \<and> card I = k
                                    then Some (relative_support T I) else map_of fr I))
           \<and> distinct Lk' \<and> set Lk' = {I. frequent T s I \<and> card I = k}"
proof -
  let ?Ck = "generate_candidates Lk k"
  let ?sc = "count_supports T ?Ck"
  let ?P = "\<lambda>cnt. s \<le> rat_of_nat cnt / rat_of_nat (length T)"
  let ?fr = "fold (keep_pure (length T) s) ?sc fr"
  let ?Lk = "map fst (filter (\<lambda>(c, cnt). ?P cnt) ?sc)"
  have dC: "distinct ?Ck" by (rule generate_candidates_distinct)
  have dsc: "distinct (map fst ?sc)" by (rule count_supports_distinct)
  have msc: "map_of ?sc c = (if c \<in> set ?Ck then Some (superset_count T c) else None)" for c
    by (rule count_supports_map_of[OF dC])
  have eq: "next_level T s (length T) Lk k fr = Inr (?fr, ?Lk)"
    unfolding next_level_def Let_def by (simp add: for_each_keep_frequent[OF n])
  have lev: "c \<in> set ?Ck \<and> s \<le> relative_support T c \<longleftrightarrow> frequent T s c \<and> card c = k" for c
    using level_candidates[OF k Lk] by blast
  have 1: "distinct (map fst fr) \<longrightarrow> distinct (map fst ?fr)"
    by (simp add: fold_keep_pure_distinct)
  have 2: "map_of ?fr I = (if frequent T s I \<and> card I = k
                           then Some (relative_support T I) else map_of fr I)" for I
    unfolding fold_keep_pure_map_of[OF dsc] msc
    using lev[of I] by (auto simp: relative_support_def)
  have 3: "distinct ?Lk" using dsc by (rule distinct_map_filter)
  have "set ?Lk = {c. \<exists>cnt. map_of ?sc c = Some cnt \<and> ?P cnt}"
    using dsc by (rule kept_keys_set)
  also have "\<dots> = {c. c \<in> set ?Ck \<and> s \<le> relative_support T c}"
    unfolding msc by (auto simp: relative_support_def)
  also have "\<dots> = {I. frequent T s I \<and> card I = k}"
    using lev by blast
  finally have 4: "set ?Lk = {I. frequent T s I \<and> card I = k}" .
  from eq 1 2 3 4 show ?thesis by blast
qed

declare apriori_loop.simps [simp del]

subsection \<open>The loop over the levels\<close>

lemma no_larger_frequent:
  assumes fin: "finite_items T"
    and k: "1 \<le> m"
    and empty: "{I. frequent T s I \<and> card I = m} = {}"
    and I: "frequent T s I"
  shows "card I < m"
proof (rule ccontr)
  assume "\<not> card I < m"
  then have "m \<le> card I" by simp
  then obtain J where J: "J \<subseteq> I" "card J = m"
    by (meson obtain_subset_with_card_n)
  from J(2) k have "J \<noteq> {}" by auto
  with I J(1) have "frequent T s J" by (rule frequent_subset)
  with J(2) empty show False by blast
qed

lemma apriori_loop_correct:
  assumes "finite_items T" "0 < length T" "n = length T" "2 \<le> k"
    and "set Lk = {I. frequent T s I \<and> card I = k - 1}"
    and "distinct (map fst fr)"
    and "\<forall>I. map_of fr I = (if frequent T s I \<and> card I < k
                             then Some (relative_support T I) else None)"
  shows "\<exists>fr'. apriori_loop T s n Lk k fr = Inr fr' \<and> distinct (map fst fr')
           \<and> (\<forall>I. map_of fr' I = (if frequent T s I then Some (relative_support T I) else None))"
  using assms
proof (induction T s n Lk k fr rule: apriori_loop.induct)
  case (1 T s n Lk k fr)
  show ?case
  proof (cases "Lk = []")
    case True
    with "1.prems"(5) have "{I. frequent T s I \<and> card I = k - 1} = {}" by simp
    with "1.prems"(1,4) have "\<And>I. frequent T s I \<Longrightarrow> card I < k - 1"
      by (intro no_larger_frequent[of T "k - 1" s]) simp_all
    then have "\<And>I. frequent T s I \<Longrightarrow> card I < k" by fastforce
    with "1.prems"(7) have "\<forall>I. map_of fr I = (if frequent T s I then Some (relative_support T I) else None)"
      by simp
    with True "1.prems"(6) show ?thesis
      by (subst apriori_loop.simps) simp
  next
    case False
    from next_level_correct[OF "1.prems"(2,4,5), of fr] "1.prems"(3,6)
    obtain fr1 Lk1 where nl: "next_level T s n Lk k fr = Inr (fr1, Lk1)"
      and d1: "distinct (map fst fr1)"
      and m1: "\<forall>I. map_of fr1 I = (if frequent T s I \<and> card I = k
                                    then Some (relative_support T I) else map_of fr I)"
      and L1: "set Lk1 = {I. frequent T s I \<and> card I = k}"
      by auto
    have m1': "\<forall>I. map_of fr1 I = (if frequent T s I \<and> card I < k + 1
                                    then Some (relative_support T I) else None)"
    proof
      fix I
      show "map_of fr1 I = (if frequent T s I \<and> card I < k + 1
                                    then Some (relative_support T I) else None)"
        using m1[rule_format, of I] "1.prems"(7)[rule_format, of I]
        by (cases "card I = k") auto
    qed
    from "1.prems"(4) have k': "2 \<le> k + 1" by simp
    from L1 have L1': "set Lk1 = {I. frequent T s I \<and> card I = k + 1 - 1}" by simp
    from "1.IH"[OF False nl refl "1.prems"(1,2,3) k' L1' d1 m1']
    obtain fr' where "apriori_loop T s n Lk1 (k + 1) fr1 = Inr fr'" "distinct (map fst fr')"
      "\<forall>I. map_of fr' I = (if frequent T s I then Some (relative_support T I) else None)"
      by blast
    with False nl show ?thesis
      by (subst apriori_loop.simps) simp
  qed
qed

subsection \<open>The first level\<close>

lemma for_each_singletons:
  "for_each (\<lambda>(item, cnt). keep_frequent n s {item} cnt) d st =
   for_each (\<lambda>(c, cnt). keep_frequent n s c cnt) (map (\<lambda>(item, cnt). ({item}, cnt)) d) st"
  by (induction d arbitrary: st) (auto split: sum.splits)

lemma singletons_distinct:
  "distinct (map fst d) \<Longrightarrow> distinct (map fst (map (\<lambda>(item, cnt). ({item}, cnt)) d))"
  by (induction d) (auto simp: image_iff)

lemma singletons_map_of:
  "map_of (map (\<lambda>(item, cnt). ({item}, cnt)) d) I =
     (if \<exists>i. I = {i} then map_of d (the_elem I) else None)"
  by (induction d) auto

lemma frequent_small:
  assumes "finite_items T"
  shows "frequent T s I \<and> card I < 2 \<longleftrightarrow>
         (\<exists>i. I = {i} \<and> i \<in> item_universe T \<and> s \<le> relative_support T {i})"
proof
  assume a: "frequent T s I \<and> card I < 2"
  then have "finite I" using assms frequent_finite by blast
  moreover from a have "I \<noteq> {}" by (simp add: frequent_def)
  ultimately have "card I = 1" using a by (metis One_nat_def Suc_1 card_gt_0_iff less_2_cases_iff not_less_zero)
  then obtain i where "I = {i}" by (auto simp: card_1_singleton_iff)
  with a show "\<exists>i. I = {i} \<and> i \<in> item_universe T \<and> s \<le> relative_support T {i}"
    by (auto simp: frequent_def)
next
  assume "\<exists>i. I = {i} \<and> i \<in> item_universe T \<and> s \<le> relative_support T {i}"
  then show "frequent T s I \<and> card I < 2" by (auto simp: frequent_def)
qed

lemma first_level_correct:
  assumes fin: "finite_items T" and n: "0 < length T"
  shows "\<exists>fr Lk. for_each (\<lambda>(item, cnt). keep_frequent (length T) s {item} cnt)
                    (count_items T) ([], []) = Inr (fr, Lk)
           \<and> distinct (map fst fr)
           \<and> (\<forall>I. map_of fr I = (if frequent T s I \<and> card I < 2
                                   then Some (relative_support T I) else None))
           \<and> set Lk = {I. frequent T s I \<and> card I = 2 - 1}"
proof -
  let ?d = "map (\<lambda>(item, cnt). ({item}, cnt)) (count_items T)"
  let ?P = "\<lambda>cnt. s \<le> rat_of_nat cnt / rat_of_nat (length T)"
  let ?fr = "fold (keep_pure (length T) s) ?d []"
  let ?Lk = "map fst (filter (\<lambda>(c, cnt). ?P cnt) ?d)"
  have dd: "distinct (map fst ?d)"
    using count_items_distinct by (rule singletons_distinct)
  have md: "map_of ?d I = (if \<exists>i. I = {i} \<and> i \<in> item_universe T
                           then Some (superset_count T I) else None)" for I
    unfolding singletons_map_of by (auto simp: count_items_map_of[OF fin])
  have eq: "for_each (\<lambda>(item, cnt). keep_frequent (length T) s {item} cnt)
              (count_items T) ([], []) = Inr (?fr, ?Lk)"
    unfolding for_each_singletons by (simp add: for_each_keep_frequent[OF n])
  have 1: "distinct (map fst ?fr)" by (rule fold_keep_pure_distinct) simp
  have 2: "map_of ?fr I = (if frequent T s I \<and> card I < 2
                           then Some (relative_support T I) else None)" for I
    unfolding fold_keep_pure_map_of[OF dd] md frequent_small[OF fin]
    by (auto simp: relative_support_def)
  have "set ?Lk = {c. \<exists>cnt. map_of ?d c = Some cnt \<and> ?P cnt}"
    using dd by (rule kept_keys_set)
  also have "\<dots> = {I. \<exists>i. I = {i} \<and> i \<in> item_universe T \<and> s \<le> relative_support T {i}}"
    unfolding md by (auto simp: relative_support_def)
  also have "\<dots> = {I. frequent T s I \<and> card I < 2}"
    using frequent_small[OF fin] by blast
  also have "\<dots> = {I. frequent T s I \<and> card I = 2 - 1}"
  proof -
    have "0 < card I" if "frequent T s I" for I
      using frequent_finite[OF fin that] that by (simp add: frequent_def card_gt_0_iff)
    then have "frequent T s I \<and> card I < 2 \<longleftrightarrow> frequent T s I \<and> card I = 2 - 1" for I
      by (cases "frequent T s I") force+
    then show ?thesis by simp
  qed
  finally have 3: "set ?Lk = {I. frequent T s I \<and> card I = 2 - 1}" .
  from eq 1 2 3 show ?thesis by blast
qed

lemma apriori_loop_Nil: "apriori_loop T s n [] k fr = Inr fr"
  by (subst apriori_loop.simps) simp

lemma frequent_empty_db: "\<not> frequent [] s I"
  by (auto simp: frequent_def item_universe_def)

theorem apriori_correct:
  assumes "finite_items T"
  shows "\<exists>fr. apriori T s t0 t1 = Inr (fr, t1 - t0) \<and> distinct (map fst fr)
           \<and> (\<forall>I. map_of fr I = (if frequent T s I then Some (relative_support T I) else None))"
proof (cases "T = []")
  case True
  then show ?thesis
    by (simp add: apriori_def count_items_def apriori_loop_Nil frequent_empty_db)
next
  case False
  then have n: "0 < length T" by simp
  from first_level_correct[OF assms n, of s]
  obtain fr Lk where l1: "for_each (\<lambda>(item, cnt). keep_frequent (length T) s {item} cnt)
                    (count_items T) ([], []) = Inr (fr, Lk)"
     and d: "distinct (map fst fr)"
     and m: "\<forall>I. map_of fr I = (if frequent T s I \<and> card I < 2
                                   then Some (relative_support T I) else None)"
     and L: "set Lk = {I. frequent T s I \<and> card I = 2 - 1}"
    by blast
  from apriori_loop_correct[OF assms n refl order_refl L d m]
  obtain fr' where "apriori_loop T s (length T) Lk 2 fr = Inr fr'" "distinct (map fst fr')"
    "\<forall>I. map_of fr' I = (if frequent T s I then Some (relative_support T I) else None)"
    by blast
  with l1 show ?thesis
    by (simp add: apriori_def Let_def)
qed

section \<open>Eclat\<close>

lemma finite_tidset: "finite (tidset T I)"
proof -
  have "tidset T I \<subseteq> fst ` set T" by (force simp: tidset_def)
  then show ?thesis by (rule finite_subset) simp
qed

lemma tidset_antitone: "J \<subseteq> I \<Longrightarrow> tidset T I \<subseteq> tidset T J"
  by (auto simp: tidset_def)

lemma tidset_Un_distinct:
  assumes "distinct (map fst T)"
  shows "tidset T (A \<union> B) = tidset T A \<inter> tidset T B"
proof (intro equalityI subsetI)
  fix t assume "t \<in> tidset T (A \<union> B)"
  then show "t \<in> tidset T A \<inter> tidset T B" by (auto simp: tidset_def)
next
  fix t assume "t \<in> tidset T A \<inter> tidset T B"
  then obtain X Y where X: "(t, X) \<in> set T" "A \<subseteq> X" and Y: "(t, Y) \<in> set T" "B \<subseteq> Y"
    by (auto simp: tidset_def)
  from assms X(1) Y(1) have "X = Y" by (rule eq_key_imp_eq_value)
  with X Y show "t \<in> tidset T (A \<union> B)" by (auto simp: tidset_def)
qed

lemma card_tidset:
  assumes "distinct (map fst T)"
  shows "card (tidset T I) = superset_count T I"
  using assms
proof (induction T)
  case Nil
  then show ?case by (simp add: tidset_def)
next
  case (Cons p T)
  obtain t X where p: "p = (t, X)" by (cases p)
  from Cons.prems p have t: "t \<notin> fst ` set T" and d: "distinct (map fst T)" by auto
  from t have nt: "t \<notin> tidset T I" by (force simp: tidset_def)
  have "tidset (p # T) I = (if I \<subseteq> X then insert t (tidset T I) else tidset T I)"
    unfolding p using t by (auto simp: tidset_def image_iff)
  then show ?case
    using nt finite_tidset[of T I] Cons.IH[OF d] by (simp add: p)
qed

subsection \<open>The vertical representation\<close>

lemma add_tid_map_of:
  "map_of (add_tid tid item v) = (map_of v)(item \<mapsto> insert tid (dict_get v item {}))"
  by (auto simp: add_tid_def Let_def dict_get_def map_of_map_entry update_conv'
        map_of_eq_None_iff[symmetric] split: option.splits)

lemma add_tid_distinct: "distinct (map fst v) \<Longrightarrow> distinct (map fst (add_tid tid item v))"
  by (simp add: add_tid_def Let_def distinct_map_entry distinct_update)

lemma fold_add_tid_map_of:
  "map_of (fold (add_tid tid) xs v) i =
     (if i \<in> set xs then Some (insert tid (dict_get v i {})) else map_of v i)"
proof (induction xs arbitrary: v)
  case Nil
  then show ?case by simp
next
  case (Cons x xs)
  show ?case
    by (auto simp: Cons.IH add_tid_map_of dict_get_def)
qed

lemma fold_add_tid_distinct:
  "distinct (map fst v) \<Longrightarrow> distinct (map fst (fold (add_tid tid) xs v))"
  by (induction xs arbitrary: v) (simp_all add: add_tid_distinct)

lemma vertical_fold_map_of:
  assumes "finite_items T"
  shows "map_of (fold (\<lambda>(tid, items). fold (add_tid tid) (sorted_list_of_set items)) T v) i =
           (if tidset T {i} = {} then map_of v i
            else Some (dict_get v i {} \<union> tidset T {i}))"
  using assms
proof (induction T arbitrary: v)
  case Nil
  then show ?case by (simp add: tidset_def)
next
  case (Cons p T)
  obtain t X where p: "p = (t, X)" by (cases p)
  from Cons.prems p have fin: "finite X" and rest: "finite_items T"
    by (simp_all add: finite_items_def)
  let ?v = "fold (add_tid t) (sorted_list_of_set X) v"
  have step: "map_of ?v i = (if i \<in> X then Some (insert t (dict_get v i {})) else map_of v i)"
    using fin by (simp add: fold_add_tid_map_of)
  have ts: "tidset (p # T) {i} = (if i \<in> X then insert t (tidset T {i}) else tidset T {i})"
    unfolding p by (auto simp: tidset_def)
  show ?case
    unfolding p fold_simps prod.case Cons.IH[OF rest] ts[unfolded p]
    using step by (auto simp: dict_get_def)
qed

lemma vertical_distinct: "distinct (map fst (build_vertical_representation T))"
proof -
  have "distinct (map fst v) \<Longrightarrow>
        distinct (map fst (fold (\<lambda>(tid, items). fold (add_tid tid) (sorted_list_of_set items)) T v))"
    for v
    by (induction T arbitrary: v) (auto simp: fold_add_tid_distinct)
  from this[of "[]"] show ?thesis
    unfolding build_vertical_representation_def by simp
qed

lemma tidset_empty_iff: "tidset T {i} = {} \<longleftrightarrow> i \<notin> item_universe T"
  by (auto simp: tidset_def item_universe_def)

lemma vertical_map_of:
  assumes "finite_items T"
  shows "map_of (build_vertical_representation T) i =
           (if i \<in> item_universe T then Some (tidset T {i}) else None)"
  unfolding build_vertical_representation_def vertical_fold_map_of[OF assms]
  by (simp add: tidset_empty_iff dict_get_def)

declare eclat_recursive.simps [simp del]

lemma foundI:
  "S \<noteq> {} \<Longrightarrow> S \<subseteq> X \<Longrightarrow> I = prefix \<union> S \<Longrightarrow> msc \<le> int (card (tidset T I))
   \<Longrightarrow> found T msc prefix X I"
  unfolding found_def by (intro exI[of _ S]) simp

lemma foundE:
  assumes "found T msc prefix X I"
  obtains S where "S \<noteq> {}" "S \<subseteq> X" "I = prefix \<union> S" "msc \<le> int (card (tidset T I))"
  using assms unfolding found_def by (elim exE conjE)

lemma card_tidset_antitone: "J \<subseteq> I \<Longrightarrow> card (tidset T I) \<le> card (tidset T J)"
  by (intro card_mono finite_tidset tidset_antitone)

lemma found_empty: "\<not> found T msc prefix {} I"
  by (simp add: found_def)

lemma found_mono: "found T msc prefix X I \<Longrightarrow> X \<subseteq> X' \<Longrightarrow> found T msc prefix X' I"
  by (erule foundE) (rule foundI, assumption, erule subset_trans, assumption+)

lemma found_skip:
  assumes "\<not> msc \<le> int (card (tidset T (insert x prefix)))"
  shows "found T msc prefix (insert x X) I \<longleftrightarrow> found T msc prefix X I"
proof
  assume "found T msc prefix (insert x X) I"
  then obtain S where S: "S \<noteq> {}" "S \<subseteq> insert x X" "I = prefix \<union> S"
      "msc \<le> int (card (tidset T I))"
    by (rule foundE)
  have "x \<notin> S"
  proof
    assume "x \<in> S"
    with S(3) have "insert x prefix \<subseteq> I" by simp
    then have "card (tidset T I) \<le> card (tidset T (insert x prefix))"
      by (rule card_tidset_antitone)
    with S(4) assms show False by linarith
  qed
  with S(2) have "S \<subseteq> X" by (simp add: subset_insert)
  with S(1) show "found T msc prefix X I" using S(3,4) by (rule foundI)
next
  assume "found T msc prefix X I"
  then show "found T msc prefix (insert x X) I" by (rule found_mono) (rule subset_insertI)
qed

lemma found_take:
  assumes "msc \<le> int (card (tidset T (insert x prefix)))"
    and Y: "Y = {y \<in> X. msc \<le> int (card (tidset T (insert y (insert x prefix))))}"
  shows "found T msc prefix (insert x X) I \<longleftrightarrow>
         found T msc prefix X I \<or> I = insert x prefix \<or> found T msc (insert x prefix) Y I"
proof
  assume "found T msc prefix (insert x X) I"
  then obtain S where S: "S \<noteq> {}" "S \<subseteq> insert x X" "I = prefix \<union> S"
      "msc \<le> int (card (tidset T I))"
    by (rule foundE)
  show "found T msc prefix X I \<or> I = insert x prefix \<or> found T msc (insert x prefix) Y I"
  proof (cases "x \<in> S")
    case False
    with S(2) have "S \<subseteq> X" by (simp add: subset_insert)
    with S(1) have "found T msc prefix X I" using S(3,4) by (rule foundI)
    then show ?thesis by simp
  next
    case True
    show ?thesis
    proof (cases "S - {x} = {}")
      case e: True
      with True have "S = {x}" by auto
      with S(3) show ?thesis by simp
    next
      case ne: False
      have sub: "S - {x} \<subseteq> Y"
      proof
        fix y assume y: "y \<in> S - {x}"
        with S(2) have "y \<in> X" by auto
        moreover from y True S(3) have "insert y (insert x prefix) \<subseteq> I" by simp
        then have "card (tidset T I) \<le> card (tidset T (insert y (insert x prefix)))"
          by (rule card_tidset_antitone)
        with S(4) have "msc \<le> int (card (tidset T (insert y (insert x prefix))))" by linarith
        ultimately show "y \<in> Y" by (simp add: Y)
      qed
      from True have "prefix \<union> S = insert x prefix \<union> (S - {x})" by auto
      with S(3) have eq: "I = insert x prefix \<union> (S - {x})" by (rule trans)
      have "found T msc (insert x prefix) Y I"
        using ne sub eq S(4) by (rule foundI)
      then show ?thesis by simp
    qed
  qed
next
  assume a: "found T msc prefix X I \<or> I = insert x prefix \<or> found T msc (insert x prefix) Y I"
  then consider "found T msc prefix X I" | "I = prefix \<union> {x}" | "found T msc (insert x prefix) Y I"
    by blast
  then show "found T msc prefix (insert x X) I"
  proof cases
    case 1
    then show ?thesis by (rule found_mono) (rule subset_insertI)
  next
    case 2
    show ?thesis
    proof (rule foundI[of "{x}"])
      show "I = prefix \<union> {x}" using 2 by simp
      show "msc \<le> int (card (tidset T I))" using assms(1) 2 by simp
    qed simp_all
  next
    case 3
    then obtain S where S: "S \<noteq> {}" "S \<subseteq> Y" "I = insert x prefix \<union> S"
      "msc \<le> int (card (tidset T I))"
      by (rule foundE)
    from S(2) Y have "S \<subseteq> X" by auto
    then have 1: "insert x S \<subseteq> insert x X" by (rule insert_mono)
    from S(3) have 2: "I = prefix \<union> insert x S" by simp
    show ?thesis
      by (rule foundI[OF _ 1 2 S(4)]) simp
  qed
qed

lemma eclat_recursive_Nil: "eclat_recursive prefix [] msc res n = Inr res"
  by (subst eclat_recursive.simps) simp

lemma eclat_recursive_snoc:
  "eclat_recursive prefix (its @ [(x, D)]) msc res n =
     (if msc \<le> int (card D)
      then (case true_div (of_nat (card D)) (of_nat n) of
              Inl e \<Rightarrow> Inl e
            | Inr supp \<Rightarrow>
                (case eclat_recursive (insert x prefix)
                        (map (\<lambda>(y, E). (y, D \<inter> E))
                           (filter (\<lambda>(y, E). msc \<le> int (card (D \<inter> E))) its))
                        msc (AList.update (insert x prefix) supp res) n of
                   Inl e \<Rightarrow> Inl e
                 | Inr res' \<Rightarrow> eclat_recursive prefix its msc res' n))
      else eclat_recursive prefix its msc res n)"
  by (subst eclat_recursive.simps) (simp add: Let_def split: sum.splits)

lemma eclat_recursive_correct:
  assumes d: "distinct (map fst T)" and n: "0 < n"
  shows "\<forall>(x, D)\<in>set its. D = tidset T (insert x prefix) \<Longrightarrow>
         \<exists>res'. eclat_recursive prefix its msc res n = Inr res'
            \<and> (distinct (map fst res) \<longrightarrow> distinct (map fst res'))
            \<and> (\<forall>I. map_of res' I =
                  (if found T msc prefix (fst ` set its) I
                   then Some (of_nat (card (tidset T I)) / of_nat n) else map_of res I))"
proof (induction "length its" arbitrary: its prefix res rule: less_induct)
  case less
  show ?case
  proof (cases its rule: rev_cases)
    case Nil
    then show ?thesis by (simp add: eclat_recursive_Nil found_empty)
  next
    case (snoc its' p)
    obtain x D where p: "p = (x, D)" by (cases p)
    from less.prems snoc p have D: "D = tidset T (insert x prefix)"
      and inv': "\<forall>(y, E)\<in>set its'. E = tidset T (insert y prefix)" by auto
    have keys: "fst ` set its = insert x (fst ` set its')"
      unfolding snoc p by simp
    have len': "length its' < length its" unfolding snoc by simp
    show ?thesis
    proof (cases "msc \<le> int (card D)")
      case False
      from less.hyps[OF len' inv', of res]
      obtain res' where r: "eclat_recursive prefix its' msc res n = Inr res'"
        "distinct (map fst res) \<longrightarrow> distinct (map fst res')"
        "\<forall>I. map_of res' I = (if found T msc prefix (fst ` set its') I
                   then Some (of_nat (card (tidset T I)) / of_nat n) else map_of res I)"
        by blast
      from False D have "\<not> msc \<le> int (card (tidset T (insert x prefix)))" by simp
      from found_skip[OF this] r False show ?thesis
        unfolding snoc p eclat_recursive_snoc keys[unfolded snoc p] by simp
    next
      case True
      let ?new = "map (\<lambda>(y, E). (y, D \<inter> E))
                    (filter (\<lambda>(y, E). msc \<le> int (card (D \<inter> E))) its')"
      let ?res1 = "AList.update (insert x prefix) (of_nat (card D) / of_nat n) res"
      have inter: "D \<inter> E = tidset T (insert y (insert x prefix))" if "(y, E) \<in> set its'" for y E
      proof -
        from inv' that have "E = tidset T (insert y prefix)" by auto
        with D have "D \<inter> E = tidset T ((insert x prefix) \<union> (insert y prefix))"
          by (simp only: tidset_Un_distinct[OF d])
        also have "(insert x prefix) \<union> (insert y prefix) = insert y (insert x prefix)" by auto
        finally show ?thesis .
      qed
      have inv_new: "\<forall>(y, F)\<in>set ?new. F = tidset T (insert y (insert x prefix))"
        using inter by auto
      have len_new: "length ?new < length its"
        unfolding snoc by (simp add: le_imp_less_Suc)
      have keys_new: "fst ` set ?new =
          {y \<in> fst ` set its'. msc \<le> int (card (tidset T (insert y (insert x prefix))))}"
      proof (intro equalityI subsetI)
        fix y assume "y \<in> fst ` set ?new"
        then obtain E where E: "(y, E) \<in> set its'" "msc \<le> int (card (D \<inter> E))" by auto
        from E(1) have "y \<in> fst ` set its'" by (rule image_eqI[rotated]) simp
        with E(2) inter[OF E(1)]
        show "y \<in> {y \<in> fst ` set its'. msc \<le> int (card (tidset T (insert y (insert x prefix))))}"
          by simp
      next
        fix y assume "y \<in> {y \<in> fst ` set its'. msc \<le> int (card (tidset T (insert y (insert x prefix))))}"
        then obtain E where E: "(y, E) \<in> set its'"
          and c: "msc \<le> int (card (tidset T (insert y (insert x prefix))))" by auto
        from c inter[OF E] have "msc \<le> int (card (D \<inter> E))" by simp
        with E have "(y, D \<inter> E) \<in> set ?new" by (auto simp: image_iff)
        then show "y \<in> fst ` set ?new" by (rule image_eqI[rotated]) simp
      qed
      from less.hyps[OF len_new inv_new, of ?res1]
      obtain res2 where r2: "eclat_recursive (insert x prefix) ?new msc ?res1 n = Inr res2"
        "distinct (map fst ?res1) \<longrightarrow> distinct (map fst res2)"
        "\<forall>I. map_of res2 I = (if found T msc (insert x prefix) (fst ` set ?new) I
                   then Some (of_nat (card (tidset T I)) / of_nat n) else map_of ?res1 I)"
        by blast
      from less.hyps[OF len' inv', of res2]
      obtain res3 where r3: "eclat_recursive prefix its' msc res2 n = Inr res3"
        "distinct (map fst res2) \<longrightarrow> distinct (map fst res3)"
        "\<forall>I. map_of res3 I = (if found T msc prefix (fst ` set its') I
                   then Some (of_nat (card (tidset T I)) / of_nat n) else map_of res2 I)"
        by blast
      have eq: "eclat_recursive prefix its msc res n = Inr res3"
        unfolding snoc p eclat_recursive_snoc using True n r2(1) r3(1)
        by (simp add: true_div_def)
      have dist: "distinct (map fst res) \<longrightarrow> distinct (map fst res3)"
        using r2(2) r3(2) by (simp add: distinct_update)
      from True D have t: "msc \<le> int (card (tidset T (insert x prefix)))" by simp
      have m: "map_of res3 I =
                  (if found T msc prefix (fst ` set its) I
                   then Some (of_nat (card (tidset T I)) / of_nat n) else map_of res I)" for I
        unfolding keys found_take[OF t keys_new] r3(3)[rule_format] r2(3)[rule_format]
        using D by (simp add: update_conv')
      from eq dist m show ?thesis by blast
    qed
  qed
qed

lemma found_top:
  assumes "distinct (map fst T)"
  shows "found T (max 1 \<lceil>s * of_nat (length T)\<rceil>) {} (item_universe T) I \<longleftrightarrow> eclat_frequent T s I"
  unfolding found_def eclat_frequent_def card_tidset[OF assms] by auto

lemma vertical_keys:
  assumes "finite_items T"
  shows "fst ` set (build_vertical_representation T) = item_universe T"
proof -
  have "fst ` set (build_vertical_representation T) = dom (map_of (build_vertical_representation T))"
    by (simp add: dom_map_of_conv_image_fst)
  also have "\<dots> = item_universe T"
    by (auto simp: vertical_map_of[OF assms] dom_def)
  finally show ?thesis .
qed

lemma vertical_entries:
  assumes "finite_items T"
  shows "\<forall>(x, D)\<in>set (build_vertical_representation T). D = tidset T (insert x {})"
proof (intro ballI, clarify)
  fix x D assume "(x, D) \<in> set (build_vertical_representation T)"
  with vertical_distinct[of T] have "map_of (build_vertical_representation T) x = Some D"
    by (rule map_of_is_SomeI)
  then show "D = tidset T {x}"
    by (simp add: vertical_map_of[OF assms] split: if_splits)
qed

theorem eclat_correct:
  assumes fin: "finite_items T" and d: "distinct (map fst T)"
  shows "\<exists>fr. eclat T s t0 t1 = Inr (fr, t1 - t0) \<and> distinct (map fst fr)
           \<and> (\<forall>I. map_of fr I = (if eclat_frequent T s I then Some (relative_support T I) else None))"
proof (cases "T = []")
  case True
  then show ?thesis
    by (simp add: eclat_def build_vertical_representation_def eclat_recursive_Nil
          eclat_frequent_def item_universe_def)
next
  case False
  then have n: "0 < length T" by simp
  let ?msc = "max 1 \<lceil>s * of_nat (length T)\<rceil>"
  from eclat_recursive_correct[OF d n vertical_entries[OF fin], of ?msc "[]"]
  obtain fr where r: "eclat_recursive {} (build_vertical_representation T) ?msc [] (length T) = Inr fr"
    "distinct (map fst fr)"
    "\<forall>I. map_of fr I = (if found T ?msc {} (fst ` set (build_vertical_representation T)) I
            then Some (of_nat (card (tidset T I)) / of_nat (length T)) else map_of [] I)"
    by auto
  have "map_of fr I = (if eclat_frequent T s I then Some (relative_support T I) else None)" for I
    using r(3)[rule_format, of I]
    unfolding vertical_keys[OF fin] found_top[OF d] card_tidset[OF d] relative_support_def
    by simp
  with r(1,2) show ?thesis
    by (simp add: eclat_def Let_def)
qed

section \<open>Rule generation\<close>

lemma for_each_append:
  assumes "\<And>x st. x \<in> set xs \<Longrightarrow> body x st = Inr (st @ g x)"
  shows "for_each body xs st = Inr (st @ concat (map g xs))"
  using assms by (induction xs arbitrary: st) simp_all

lemma rule_step_emit:
  "rule_step F c itemset sup_xy tup rules = Inr (rules @ emit F c itemset sup_xy tup)"
  by (simp add: rule_step_def emit_def Let_def true_div_def)

lemma rules_of_itemset_emit:
  "rules_of_itemset F c p rules = Inr (rules @ emit_itemset F c p)"
proof -
  obtain itemset sup_xy where p: "p = (itemset, sup_xy)" by (cases p)
  have inner: "for_each (rule_step F c itemset sup_xy) tups st =
                 Inr (st @ concat (map (emit F c itemset sup_xy) tups))" for tups st
    by (rule for_each_append) (rule rule_step_emit)
  show ?thesis
    unfolding p rules_of_itemset_def emit_itemset_def prod.case Let_def
    by (simp add: for_each_append[where g = "\<lambda>r. concat (map (emit F c itemset sup_xy)
                     (combinations (sorted_list_of_set itemset) r))"] inner)
qed

lemma generate_association_rules_eq:
  "generate_association_rules F c = Inr (concat (map (emit_itemset F c) F))"
  unfolding generate_association_rules_def
  using for_each_append[where body = "rules_of_itemset F c" and g = "emit_itemset F c" and st = "[]"]
  by (simp add: rules_of_itemset_emit)

lemma length_concat_map_mono:
  assumes "\<And>x. x \<in> set xs \<Longrightarrow> length (f x) \<le> length (g x)"
  shows "length (concat (map f xs)) \<le> length (concat (map g xs))"
  using assms by (induction xs) (simp_all add: add_mono)

lemma emit_length_mono:
  "c \<le> c' \<Longrightarrow> length (emit F c' itemset sup_xy tup) \<le> length (emit F c itemset sup_xy tup)"
  by (simp add: emit_def Let_def)

lemma emit_itemset_length_mono:
  assumes "c \<le> c'"
  shows "length (emit_itemset F c' p) \<le> length (emit_itemset F c p)"
proof -
  obtain itemset sup_xy where p: "p = (itemset, sup_xy)" by (cases p)
  show ?thesis
    unfolding p emit_itemset_def prod.case
    by (simp add: length_concat_map_mono emit_length_mono[OF assms])
qed

lemma rules_length_mono:
  assumes "c \<le> c'"
  shows "length (concat (map (emit_itemset F c') F)) \<le> length (concat (map (emit_itemset F c) F))"
  by (rule length_concat_map_mono) (rule emit_itemset_length_mono[OF assms])

lemma in_emit_itemset:
  assumes "r \<in> set (emit_itemset F c (itemset, sup_xy))"
  obtains tup where "2 \<le> card itemset" "set tup \<subseteq> itemset" "set tup \<noteq> {}" "set tup \<noteq> itemset"
    "r \<in> set (emit F c itemset sup_xy tup)"
proof -
  from assms have c2: "2 \<le> card itemset"
    by (auto simp: emit_itemset_def split: if_splits)
  then have fin: "finite itemset" by (intro card_ge_0_finite) simp
  let ?items = "sorted_list_of_set itemset"
  from assms c2 obtain k tup where k: "1 \<le> k" "k < length ?items"
    and tup: "tup \<in> set (combinations ?items k)" and r: "r \<in> set (emit F c itemset sup_xy tup)"
    by (auto simp: emit_itemset_def)
  from tup have "set tup \<in> set ` set (combinations ?items k)" by (rule imageI)
  with fin have s: "set tup \<subseteq> itemset" "card (set tup) = k"
    by (simp_all add: set_combinations del: image_set)
  from s(2) k(1) have "set tup \<noteq> {}" by auto
  moreover from s(2) k(2) fin have "set tup \<noteq> itemset" by auto
  ultimately show ?thesis using that c2 s(1) r by blast
qed

lemma dict_pairs:
  "distinct (map fst d) \<Longrightarrow> (k, v) \<in> set d \<longleftrightarrow> map_of d k = Some v"
  by (auto dest: map_of_SomeD intro: map_of_is_SomeI)


section \<open>What a call leaves unchanged\<close>

lemma kept_refl: "kept h (length h) h"
  by (simp add: kept_def)

lemma kept_alloc:
  assumes "kept h0 n h" "alloc h ob = (a, h')"
  shows "kept h0 n h'" "a = length h" "length h' = Suc (length h)"
  using assms by (auto simp: kept_def alloc_def)

lemma kept_update:
  assumes "kept h0 n h" "length h0 \<le> a"
  shows "kept h0 n (h[a := ob])"
  using assms by (simp add: kept_def)

lemma kept_weaken: "kept h0 n h \<Longrightarrow> m \<le> n \<Longrightarrow> kept h0 m h"
  by (simp add: kept_def)

lemma for_each_invariant:
  assumes "for_each body xs st = Inr st'" "P st"
    and "\<And>x st st'. x \<in> set xs \<Longrightarrow> P st \<Longrightarrow> body x st = Inr st' \<Longrightarrow> P st'"
  shows "P st'"
  using assms
proof (induction xs arbitrary: st)
  case Nil
  then show ?case by simp
next
  case (Cons x xs)
  from Cons.prems(1) obtain st1 where 1: "body x st = Inr st1"
    and 2: "for_each body xs st1 = Inr st'"
    by (auto split: sum.splits)
  have st1: "P st1" by (rule Cons.prems(3)[OF _ Cons.prems(2) 1]) simp
  show ?case
  proof (rule Cons.IH[OF 2 st1])
    fix y s s' assume "y \<in> set xs" "P s" "body y s = Inr s'"
    then show "P s'" using Cons.prems(3)[of y s s'] by simp
  qed
qed

subsection \<open>Apriori\<close>

lemma keep_frequent_h_kept:
  assumes "keep_frequent_h fr n s c cnt (h, Lk) = Inr (h', Lk')" "kept h0 m h" "length h0 \<le> fr"
  shows "kept h0 m h'"
  using assms
  by (auto simp: keep_frequent_h_def true_div_def kept_update split: if_splits sum.splits)

lemma for_each_keep_frequent_h_kept:
  assumes "for_each (\<lambda>(c, cnt). keep_frequent_h fr n s (g c) cnt) d (h, Lk) = Inr (h', Lk')"
    "kept h0 m h" "length h0 \<le> fr"
  shows "kept h0 m h'"
proof -
  have "kept h0 m (fst (h', Lk'))"
  proof (rule for_each_invariant[where P = "\<lambda>st. kept h0 m (fst st)", OF assms(1)])
    show "kept h0 m (fst (h, Lk))" using assms(2) by simp
  next
    fix x st st'
    assume "kept h0 m (fst st)" "(case x of (c, cnt) \<Rightarrow> keep_frequent_h fr n s (g c) cnt) st = Inr st'"
    then show "kept h0 m (fst st')"
      using assms(3) by (cases x; cases st; cases st') (auto dest: keep_frequent_h_kept)
  qed
  then show ?thesis by simp
qed

lemma next_level_h_kept:
  assumes "next_level_h T fr s n Lk k h = Inr (h', Lk')" "kept h0 m h" "length h0 \<le> fr"
  shows "kept h0 m h'"
proof -
  from assms(1) obtain sc where
    "for_each (\<lambda>(c, count). keep_frequent_h fr n s c count) sc (h, []) = Inr (h', Lk')"
    by (auto simp: next_level_h_def Let_def split: sum.splits)
  from for_each_keep_frequent_h_kept[where g = "\<lambda>c. c", OF this assms(2,3)] show ?thesis .
qed

declare apriori_loop_h.simps [simp del]

lemma apriori_loop_h_kept:
  "apriori_loop_h T fr s n Lk k h = Inr h' \<Longrightarrow> kept h0 m h \<Longrightarrow> length h0 \<le> fr \<Longrightarrow> kept h0 m h'"
proof (induction T fr s n Lk k h rule: apriori_loop_h.induct)
  case (1 T fr s n Lk k h)
  show ?case
  proof (cases "Lk = []")
    case True
    with "1.prems" show ?thesis by (simp add: apriori_loop_h.simps)
  next
    case False
    with "1.prems"(1) obtain h1 Lk1 where nl: "next_level_h T fr s n Lk k h = Inr (h1, Lk1)"
      and rest: "apriori_loop_h T fr s n Lk1 (k + 1) h1 = Inr h'"
      by (subst (asm) apriori_loop_h.simps) (auto split: sum.splits)
    from next_level_h_kept[OF nl "1.prems"(2,3)] have "kept h0 m h1" .
    from "1.IH"[OF False nl refl rest this "1.prems"(3)] show ?thesis .
  qed
qed

lemma apriori_h_frame:
  assumes "apriori_h h db s t0 t1 = Inr ((fr, el), h')"
  shows "take (length h) h' = h \<and> length h \<le> fr \<and> fr < length h'"
proof -
  from assms obtain T where T: "get_db h db = Inr T"
    unfolding apriori_h_def by (cases "get_db h db") simp_all
  from assms T obtain ic where ic: "count_items_h h (map snd T) = Inr ic"
    unfolding apriori_h_def by (cases "count_items_h h (map snd T)") simp_all
  let ?l1 = "for_each (\<lambda>(item, count). keep_frequent_h (length h) (length T) s {item} count)
           ic (h @ [ResObj []], [])"
  from assms T ic obtain h2 Lk where l1: "?l1 = Inr (h2, Lk)"
    unfolding apriori_h_def alloc_def Let_def by (cases ?l1) auto
  from assms T ic l1 have loop: "apriori_loop_h db (length h) s (length T) Lk 2 h2 = Inr h'"
    and fr: "fr = length h"
    unfolding apriori_h_def alloc_def Let_def
    by (cases "apriori_loop_h db (length h) s (length T) Lk 2 h2"; simp)+
  have k0: "kept h (Suc (length h)) (h @ [ResObj []])" by (simp add: kept_def)
  from for_each_keep_frequent_h_kept[where g = "\<lambda>i. {i}", OF l1 k0]
  have "kept h (Suc (length h)) h2" by simp
  from apriori_loop_h_kept[OF loop this] have "kept h (Suc (length h)) h'" by simp
  with fr show ?thesis by (simp add: kept_def)
qed

subsection \<open>Rule generation\<close>

lemma rule_step_h_kept:
  assumes "rule_step_h F rules c itemset sup_xy tup h = Inr h'" "kept h0 m h" "length h0 \<le> rules"
  shows "kept h0 m h'"
  using assms
  by (auto simp: rule_step_h_def Let_def true_div_def kept_update split: if_splits sum.splits)

lemma rules_of_itemset_h_kept:
  assumes "rules_of_itemset_h F rules c p h = Inr h'" "kept h0 m h" "length h0 \<le> rules"
  shows "kept h0 m h'"
proof -
  obtain itemset sup_xy where p: "p = (itemset, sup_xy)" by (cases p)
  show ?thesis
  proof (cases "card itemset < 2")
    case True
    with assms(1,2) show ?thesis by (simp add: p rules_of_itemset_h_def)
  next
    case False
    let ?items = "sorted_list_of_set itemset"
    from assms(1) False have
      outer: "for_each (\<lambda>r. for_each (rule_step_h F rules c itemset sup_xy) (combinations ?items r))
                [1 ..< length ?items] h = Inr h'"
      by (simp add: p rules_of_itemset_h_def Let_def)
    show ?thesis
    proof (rule for_each_invariant[where P = "kept h0 m", OF outer assms(2)])
      fix r h1 h2
      assume k: "kept h0 m h1"
        and inner: "for_each (rule_step_h F rules c itemset sup_xy) (combinations ?items r) h1 = Inr h2"
      show "kept h0 m h2"
      proof (rule for_each_invariant[where P = "kept h0 m", OF inner k])
        fix tup h3 h4
        assume a: "kept h0 m h3" and b: "rule_step_h F rules c itemset sup_xy tup h3 = Inr h4"
        show "kept h0 m h4" by (rule rule_step_h_kept[OF b a assms(3)])
      qed
    qed
  qed
qed

lemma generate_association_rules_h_frame:
  assumes "generate_association_rules_h h F c = Inr (rs, h')"
  shows "take (length h) h' = h \<and> length h \<le> rs \<and> rs < length h'"
proof -
  let ?h1 = "h @ [RulesObj []]"
  from assms obtain Fd where Fd: "get_res ?h1 F = Inr Fd"
    unfolding generate_association_rules_h_def alloc_def Let_def
    by (cases "get_res ?h1 F") simp_all
  from assms Fd have loop: "for_each (rules_of_itemset_h F (length h) c) Fd ?h1 = Inr h'"
    and rs: "rs = length h"
    unfolding generate_association_rules_h_def alloc_def Let_def
    by (cases "for_each (rules_of_itemset_h F (length h) c) Fd ?h1"; simp)+
  have k0: "kept h (Suc (length h)) ?h1" by (simp add: kept_def)
  have "kept h (Suc (length h)) h'"
  proof (rule for_each_invariant[where P = "kept h (Suc (length h))", OF loop k0])
    fix p h1 h2
    assume a: "kept h (Suc (length h)) h1" and b: "rules_of_itemset_h F (length h) c p h1 = Inr h2"
    show "kept h (Suc (length h)) h2" by (rule rules_of_itemset_h_kept[OF b a order_refl])
  qed
  with rs show ?thesis by (simp add: kept_def)
qed

subsection \<open>Eclat\<close>

lemma set_update_subset: "set (AList.update k v al) \<subseteq> insert (k, v) (set al)"
  by (induction al) auto

lemma fresh_refs_update:
  "fresh_refs h0 vertical \<Longrightarrow> length h0 \<le> a \<Longrightarrow> fresh_refs h0 (AList.update item a vertical)"
  unfolding fresh_refs_def using set_update_subset[of item a vertical] by fastforce

lemma fresh_refs_lookup:
  "fresh_refs h0 vertical \<Longrightarrow> map_of vertical item = Some a \<Longrightarrow> length h0 \<le> a"
  unfolding fresh_refs_def by (force dest: map_of_SomeD)

lemma add_tid_h_kept:
  assumes "add_tid_h tid item (vertical, h) = Inr (vertical', h')"
    "kept h0 m h" "fresh_refs h0 vertical"
  shows "kept h0 m h' \<and> fresh_refs h0 vertical'"
proof (cases "item \<in> fst ` set vertical")
  case True
  with assms(1) obtain a where a: "map_of vertical item = Some a"
    and eq: "vertical' = vertical" "\<exists>S. h' = h[a := SetObj S]"
    by (auto simp: add_tid_h_def Let_def split: option.splits sum.splits)
  from fresh_refs_lookup[OF assms(3) a] have "length h0 \<le> a" .
  with assms(2,3) eq show ?thesis by (auto simp: kept_update)
next
  case False
  let ?h1 = "h @ [SetObj {}]"
  from False assms(1) have eq: "vertical' = AList.update item (length h) vertical"
    "\<exists>S. h' = ?h1[length h := SetObj S]"
    by (auto simp: add_tid_h_def alloc_def Let_def update_conv' split: option.splits sum.splits)
  from assms(2) have le: "length h0 \<le> length h" by (simp add: kept_def)
  from assms(2) have "kept h0 m ?h1" by (simp add: kept_def)
  with le eq(2) have "kept h0 m h'" by (auto simp: kept_update simp del: list_update_append1 list_update_length)
  moreover from assms(3) le eq(1) have "fresh_refs h0 vertical'" by (simp add: fresh_refs_update)
  ultimately show ?thesis ..
qed

lemma build_vertical_representation_h_kept:
  assumes "build_vertical_representation_h h T = Inr (vertical, h')"
  shows "kept h (length h) h'"
proof -
  let ?P = "\<lambda>st. kept h (length h) (snd st) \<and> fresh_refs h (fst st)"
  have "?P (vertical, h')"
  proof (rule for_each_invariant[where P = ?P, OF assms[unfolded build_vertical_representation_h_def]])
    show "?P ([], h)" by (simp add: kept_refl fresh_refs_def)
  next
    fix p st st'
    assume P: "?P st"
      and step: "(case p of (tid, r) \<Rightarrow> \<lambda>(vertical, h).
                    case get_set h r of Inl e \<Rightarrow> Inl e
                    | Inr items \<Rightarrow> for_each (add_tid_h tid) (sorted_list_of_set items) (vertical, h))
                 st = Inr st'"
    obtain tid r where p: "p = (tid, r)" by (cases p)
    obtain v1 h1 where st: "st = (v1, h1)" by (cases st)
    from step obtain items where
      inner: "for_each (add_tid_h tid) (sorted_list_of_set items) (v1, h1) = Inr st'"
      unfolding p st by (cases "get_set h1 r") simp_all
    show "?P st'"
    proof (rule for_each_invariant[where P = ?P, OF inner])
      show "?P (v1, h1)" using P st by simp
    next
      fix item s1 s2
      assume a: "?P s1" and b: "add_tid_h tid item s1 = Inr s2"
      obtain v2 h2 where s1: "s1 = (v2, h2)" by (cases s1)
      obtain v3 h3 where s2: "s2 = (v3, h3)" by (cases s2)
      from a s1 have k: "kept h (length h) h2" "fresh_refs h v2" by simp_all
      from add_tid_h_kept[OF b[unfolded s1 s2] k] show "?P s2" by (simp add: s2)
    qed
  qed
  then show ?thesis by simp
qed

lemma intersect_h_kept:
  assumes "intersect_h tids msc p (new, h) = Inr (new', h')" "kept h0 m h"
  shows "kept h0 m h'"
  using assms
  by (cases p) (auto simp: intersect_h_def alloc_def Let_def kept_def split: sum.splits if_splits)

lemma for_each_intersect_h_kept:
  assumes "for_each (intersect_h tids msc) its (new, h) = Inr (new', h')" "kept h0 m h"
  shows "kept h0 m h'"
proof -
  have "kept h0 m (snd (new', h'))"
  proof (rule for_each_invariant[where P = "\<lambda>st. kept h0 m (snd st)", OF assms(1)])
    show "kept h0 m (snd (new, h))" using assms(2) by simp
  next
    fix p st st'
    assume a: "kept h0 m (snd st)" and b: "intersect_h tids msc p st = Inr st'"
    obtain n1 h1 where st: "st = (n1, h1)" by (cases st)
    obtain n2 h2 where st': "st' = (n2, h2)" by (cases st')
    from intersect_h_kept[OF b[unfolded st st']] a st st' show "kept h0 m (snd st')" by simp
  qed
  then show ?thesis by simp
qed

declare eclat_recursive_h.simps [simp del]

lemma eclat_recursive_h_Nil: "eclat_recursive_h prefix [] msc results n h = Inr h"
  by (subst eclat_recursive_h.simps) simp

lemma eclat_recursive_h_snoc:
  "eclat_recursive_h prefix (its @ [(x, r)]) msc results n h =
     (case get_set h r of
        Inl e \<Rightarrow> Inl e
      | Inr tids \<Rightarrow>
          if msc \<le> int (card tids)
          then (case true_div (of_nat (card tids)) (of_nat n) of
                  Inl e \<Rightarrow> Inl e
                | Inr supp \<Rightarrow>
                    (case get_res h results of
                       Inl e \<Rightarrow> Inl e
                     | Inr res \<Rightarrow>
                         (case for_each (intersect_h tids msc) its
                                 ([], h[results := ResObj (AList.update (insert x prefix) supp res)]) of
                            Inl e \<Rightarrow> Inl e
                          | Inr (new, h2) \<Rightarrow>
                              (case eclat_recursive_h (insert x prefix) new msc results n h2 of
                                 Inl e \<Rightarrow> Inl e
                               | Inr h3 \<Rightarrow> eclat_recursive_h prefix its msc results n h3))))
          else eclat_recursive_h prefix its msc results n h)"
  by (subst eclat_recursive_h.simps) (simp add: Let_def split: sum.splits)

lemma eclat_recursive_h_kept:
  "eclat_recursive_h prefix its msc results n h = Inr h' \<Longrightarrow> kept h0 m h
   \<Longrightarrow> length h0 \<le> results \<Longrightarrow> kept h0 m h'"
proof (induction "length its" arbitrary: its prefix h h' rule: less_induct)
  case less
  show ?case
  proof (cases its rule: rev_cases)
    case Nil
    with less.prems show ?thesis by (simp add: eclat_recursive_h_Nil)
  next
    case (snoc its' p)
    obtain x r where p: "p = (x, r)" by (cases p)
    note run = less.prems(1)[unfolded snoc p eclat_recursive_h_snoc]
    have len': "length its' < length its" unfolding snoc by simp
    from run obtain tids where tids: "get_set h r = Inr tids"
      by (cases "get_set h r") simp_all
    show ?thesis
    proof (cases "msc \<le> int (card tids)")
      case False
      with run tids have "eclat_recursive_h prefix its' msc results n h = Inr h'" by simp
      from less.hyps[OF len' this less.prems(2,3)] show ?thesis .
    next
      case True
      from run tids True obtain supp where
        supp: "true_div (of_nat (card tids)) (of_nat n) = Inr supp"
        by (cases "true_div (rat_of_nat (card tids)) (rat_of_nat n)") simp_all
      from run tids True supp obtain res where res: "get_res h results = Inr res"
        by (cases "get_res h results") simp_all
      let ?h1 = "h[results := ResObj (AList.update (insert x prefix) supp res)]"
      from run tids True supp res obtain new h2 where
        inter: "for_each (intersect_h tids msc) its' ([], ?h1) = Inr (new, h2)"
        by (cases "for_each (intersect_h tids msc) its' ([], ?h1)") auto
      from run tids True supp res inter obtain h3 where
        rec1: "eclat_recursive_h (insert x prefix) new msc results n h2 = Inr h3"
        by (cases "eclat_recursive_h (insert x prefix) new msc results n h2") simp_all
      from run tids True supp res inter rec1 have
        rec2: "eclat_recursive_h prefix its' msc results n h3 = Inr h'" by simp
      from less.prems(2,3) have k1: "kept h0 m ?h1" by (rule kept_update)
      from for_each_intersect_h_kept[OF inter k1] have k2: "kept h0 m h2" .
      from for_each_intersect_h_length[OF inter] have "length new < length its"
        unfolding snoc by simp
      from less.hyps[OF this rec1 k2 less.prems(3)] have k3: "kept h0 m h3" .
      from less.hyps[OF len' rec2 k3 less.prems(3)] show ?thesis .
    qed
  qed
qed

lemma eclat_h_frame:
  assumes "eclat_h h db s t0 t1 = Inr ((fr, el), h')"
  shows "take (length h) h' = h \<and> length h \<le> fr \<and> fr < length h'"
proof -
  from assms obtain T where T: "get_db h db = Inr T"
    unfolding eclat_h_def by (cases "get_db h db") simp_all
  from assms T obtain vertical h1 where
    v: "build_vertical_representation_h h T = Inr (vertical, h1)"
    unfolding eclat_h_def by (cases "build_vertical_representation_h h T") auto
  let ?h2 = "h1 @ [ResObj []]"
  let ?msc = "max 1 \<lceil>s * of_nat (length T)\<rceil>"
  from assms T v have rec: "eclat_recursive_h {} vertical ?msc (length h1) (length T) ?h2 = Inr h'"
    and fr: "fr = length h1"
    unfolding eclat_h_def alloc_def Let_def
    by (cases "eclat_recursive_h {} vertical ?msc (length h1) (length T) ?h2"; simp)+
  from build_vertical_representation_h_kept[OF v] have k1: "kept h (length h) h1" .
  then have le: "length h \<le> length h1" by (simp add: kept_def)
  from k1 have k2: "kept h (Suc (length h1)) ?h2" by (simp add: kept_def)
  from eclat_recursive_h_kept[OF rec k2 le] have "kept h (Suc (length h1)) h'" .
  with fr le show ?thesis by (simp add: kept_def)
qed

section \<open>The heap functions compute what the value functions compute\<close>

lemma for_each_sim:
  assumes "\<And>x st. x \<in> set xs \<Longrightarrow> body_h x (f st) = map_sum id f (body x st)"
  shows "for_each body_h xs (f st) = map_sum id f (for_each body xs st)"
  using assms
proof (induction xs arbitrary: st)
  case Nil
  then show ?case by simp
next
  case (Cons x xs)
  show ?case
  proof (cases "body x st")
    case (Inl e)
    with Cons.prems[of x st] show ?thesis by simp
  next
    case (Inr st1)
    with Cons.prems[of x st] have "body_h x (f st) = Inr (f st1)" by simp
    with Inr Cons.IH[of st1] Cons.prems show ?thesis by simp
  qed
qed

lemma get_set_append: "get_set h r = Inr S \<Longrightarrow> get_set (h @ ys) r = Inr S"
  by (auto simp: get_set_def nth_append split: if_splits)

lemma get_db_append: "get_db h r = Inr T \<Longrightarrow> get_db (h @ ys) r = Inr T"
  by (auto simp: get_db_def nth_append split: if_splits)

lemma get_res_append: "get_res h r = Inr F \<Longrightarrow> get_res (h @ ys) r = Inr F"
  by (auto simp: get_res_def nth_append split: if_splits)

lemma valid_refs_get:
  assumes "valid_refs h refs" "r \<in> set refs"
  obtains S where "get_set h r = Inr S"
  using assms unfolding valid_refs_def list_all_iff by (cases "get_set h r") auto

lemma valid_refs_append:
  assumes "valid_refs h refs"
  shows "valid_refs (h @ ys) refs"
  unfolding valid_refs_def list_all_iff
proof
  fix r assume "r \<in> set refs"
  with assms obtain S where "get_set h r = Inr S" by (rule valid_refs_get)
  then have "get_set (h @ ys) r = Inr S" by (rule get_set_append)
  then show "case get_set (h @ ys) r of Inl e \<Rightarrow> False | Inr S \<Rightarrow> True" by simp
qed

lemma set_at_append:
  assumes "valid_refs h refs" "r \<in> set refs"
  shows "set_at (h @ ys) r = set_at h r"
proof -
  from assms obtain S where S: "get_set h r = Inr S" by (rule valid_refs_get)
  then have "get_set (h @ ys) r = Inr S" by (rule get_set_append)
  with S show ?thesis by (simp add: set_at_def)
qed

lemma read_sets:
  assumes "valid_refs h refs"
  shows "for_each (\<lambda>r d. case get_set h r of Inl e \<Rightarrow> Inl e | Inr items \<Rightarrow> Inr (g items d)) refs d
           = Inr (fold g (map (set_at h) refs) d)"
  using assms
proof (induction refs arbitrary: d)
  case Nil
  then show ?case by simp
next
  case (Cons r refs)
  from Cons.prems obtain S where S: "get_set h r = Inr S" and rest: "valid_refs h refs"
    by (auto simp: valid_refs_def split: sum.splits)
  from S have "set_at h r = S" by (simp add: set_at_def)
  with S Cons.IH[OF rest] show ?case by simp
qed

lemma map_snd_snapshot: "map snd (snapshot h Tr) = map (set_at h) (map snd Tr)"
  by (induction Tr) (auto simp: snapshot_def)

lemma count_items_h_eq:
  "valid_refs h (map snd Tr) \<Longrightarrow> count_items_h h (map snd Tr) = Inr (count_items (snapshot h Tr))"
  unfolding count_items_h_def count_items_def map_snd_snapshot
  by (rule read_sets)

lemma count_supports_h_eq:
  "valid_refs h (map snd Tr)
   \<Longrightarrow> count_supports_h h (map snd Tr) Ck = Inr (count_supports (snapshot h Tr) Ck)"
  unfolding count_supports_h_def count_supports_def map_snd_snapshot
  by (rule read_sets)

lemma snapshot_append:
  assumes "valid_refs h (map snd Tr)"
  shows "snapshot (h @ ys) Tr = snapshot h Tr"
proof -
  have "set_at (h @ ys) r = set_at h r" if "(tid, r) \<in> set Tr" for tid r
  proof (rule set_at_append[OF assms])
    from that show "r \<in> set (map snd Tr)" by force
  qed
  then show ?thesis unfolding snapshot_def by auto
qed

subsection \<open>Apriori\<close>

lemma get_res_last: "get_res (h0 @ [ResObj fr]) (length h0) = Inr fr"
  by (simp add: get_res_def)

lemma keep_frequent_h_eq:
  "keep_frequent_h (length h0) n s c cnt (with_result h0 st)
     = map_sum id (with_result h0) (keep_frequent n s c cnt st)"
  by (cases st) (simp add: keep_frequent_h_def keep_frequent_def with_result_def true_div_def
       get_res_last)

lemma for_each_keep_frequent_h_eq:
  "for_each (\<lambda>(c, cnt). keep_frequent_h (length h0) n s (g c) cnt) d (with_result h0 st)
     = map_sum id (with_result h0) (for_each (\<lambda>(c, cnt). keep_frequent n s (g c) cnt) d st)"
  by (rule for_each_sim) (auto simp: keep_frequent_h_eq)

lemma next_level_h_eq:
  assumes "get_db h0 db = Inr Tr" "valid_refs h0 (map snd Tr)"
  shows "next_level_h db (length h0) s n Lk k (h0 @ [ResObj fr])
           = map_sum id (with_result h0) (next_level (snapshot h0 Tr) s n Lk k fr)"
proof -
  let ?h = "h0 @ [ResObj fr]"
  from assms(1) have db: "get_db ?h db = Inr Tr" by (rule get_db_append)
  from assms(2) have v: "valid_refs ?h (map snd Tr)" by (rule valid_refs_append)
  have sc: "count_supports_h ?h (map snd Tr) (generate_candidates Lk k)
              = Inr (count_supports (snapshot h0 Tr) (generate_candidates Lk k))"
    using count_supports_h_eq[OF v] snapshot_append[OF assms(2)] by simp
  have w: "(?h, []) = with_result h0 (fr, [])" by (simp add: with_result_def)
  show ?thesis
    using for_each_keep_frequent_h_eq[where g = "\<lambda>c. c" and ?h0.0 = h0 and st = "(fr, [])"]
    by (simp add: next_level_h_def next_level_def Let_def db sc w)
qed

lemma apriori_loop_h_eq:
  assumes "get_db h0 db = Inr Tr" "valid_refs h0 (map snd Tr)"
  shows "apriori_loop_h db (length h0) s n Lk k (h0 @ [ResObj fr])
           = map_sum id (\<lambda>fr'. h0 @ [ResObj fr']) (apriori_loop (snapshot h0 Tr) s n Lk k fr)"
proof (induction "snapshot h0 Tr" s n Lk k fr rule: apriori_loop.induct)
  case (1 s n Lk k fr)
  show ?case
  proof (cases "Lk = []")
    case True
    then show ?thesis by (simp add: apriori_loop.simps apriori_loop_h.simps)
  next
    case False
    show ?thesis
    proof (cases "next_level (snapshot h0 Tr) s n Lk k fr")
      case (Inl e)
      with False next_level_h_eq[OF assms, of s n Lk k fr] show ?thesis
        by (subst apriori_loop.simps, subst apriori_loop_h.simps) simp
    next
      case (Inr p)
      obtain fr1 Lk1 where p: "p = (fr1, Lk1)" by (cases p)
      from Inr p next_level_h_eq[OF assms, of s n Lk k fr]
      have nl: "next_level_h db (length h0) s n Lk k (h0 @ [ResObj fr]) = Inr (h0 @ [ResObj fr1], Lk1)"
        by (simp add: with_result_def)
      from "1.hyps"[OF False Inr[unfolded p] refl]
      have "apriori_loop_h db (length h0) s n Lk1 (k + 1) (h0 @ [ResObj fr1])
              = map_sum id (\<lambda>fr'. h0 @ [ResObj fr']) (apriori_loop (snapshot h0 Tr) s n Lk1 (k + 1) fr1)" .
      with False Inr p nl show ?thesis
        by (subst apriori_loop.simps, subst apriori_loop_h.simps) simp
    qed
  qed
qed

lemma apriori_h_eq:
  assumes "get_db h db = Inr Tr" "valid_refs h (map snd Tr)"
  shows "apriori_h h db s t0 t1
           = map_sum id (\<lambda>(fr, el). ((length h, el), h @ [ResObj fr]))
               (apriori (snapshot h Tr) s t0 t1)"
proof -
  let ?T = "snapshot h Tr"
  have n: "length ?T = length Tr" by (simp add: snapshot_def)
  have w: "(h @ [ResObj []], []) = with_result h ([], [])" by (simp add: with_result_def)
  let ?l1 = "for_each (\<lambda>(item, cnt). keep_frequent (length Tr) s {item} cnt) (count_items ?T) ([], [])"
  have l1: "for_each (\<lambda>(item, cnt). keep_frequent_h (length h) (length Tr) s {item} cnt)
              (count_items ?T) (h @ [ResObj []], []) = map_sum id (with_result h) ?l1"
    unfolding w by (rule for_each_keep_frequent_h_eq)
  show ?thesis
  proof (cases ?l1)
    case (Inl e)
    with l1 show ?thesis
      by (simp add: apriori_h_def apriori_def Let_def alloc_def assms(1)
            count_items_h_eq[OF assms(2)] n)
  next
    case (Inr p)
    obtain fr Lk where p: "p = (fr, Lk)" by (cases p)
    from Inr p l1 have l1': "for_each (\<lambda>(item, cnt). keep_frequent_h (length h) (length Tr) s {item} cnt)
              (count_items ?T) (h @ [ResObj []], []) = Inr (h @ [ResObj fr], Lk)"
      by (simp add: with_result_def)
    show ?thesis
      using Inr p l1' apriori_loop_h_eq[OF assms, of s "length Tr" Lk 2 fr]
      by (cases "apriori_loop ?T s (length Tr) Lk 2 fr")
         (simp_all add: apriori_h_def apriori_def Let_def alloc_def assms(1)
            count_items_h_eq[OF assms(2)] n)
  qed
qed

subsection \<open>Rule generation\<close>

lemma get_rules_last: "get_rules (h0 @ [RulesObj rs]) (length h0) = Inr rs"
  by (simp add: get_rules_def)

lemma rule_step_h_eq:
  assumes "get_res h0 F = Inr Fd"
  shows "rule_step_h F (length h0) c itemset sup_xy tup (h0 @ [RulesObj rs])
           = map_sum id (\<lambda>rs'. h0 @ [RulesObj rs']) (rule_step Fd c itemset sup_xy tup rs)"
  by (simp add: rule_step_h_def rule_step_def Let_def true_div_def get_rules_last
        get_res_append[OF assms])

lemma rules_of_itemset_h_eq:
  assumes "get_res h0 F = Inr Fd"
  shows "rules_of_itemset_h F (length h0) c p (h0 @ [RulesObj rs])
           = map_sum id (\<lambda>rs'. h0 @ [RulesObj rs']) (rules_of_itemset Fd c p rs)"
proof -
  obtain itemset sup_xy where p: "p = (itemset, sup_xy)" by (cases p)
  let ?f = "\<lambda>rs'. h0 @ [RulesObj rs']"
  have inner: "for_each (rule_step_h F (length h0) c itemset sup_xy) tups (?f st)
                 = map_sum id ?f (for_each (rule_step Fd c itemset sup_xy) tups st)" for tups st
    by (rule for_each_sim) (rule rule_step_h_eq[OF assms])
  have outer: "for_each (\<lambda>r. for_each (rule_step_h F (length h0) c itemset sup_xy) (g r)) ks (?f st)
                 = map_sum id ?f (for_each (\<lambda>r. for_each (rule_step Fd c itemset sup_xy) (g r)) ks st)"
    for g :: "nat \<Rightarrow> string list list" and ks st
    by (rule for_each_sim) (rule inner)
  show ?thesis
    by (simp add: p rules_of_itemset_h_def rules_of_itemset_def Let_def outer)
qed

lemma generate_association_rules_h_eq:
  assumes "get_res h F = Inr Fd"
  shows "generate_association_rules_h h F c
           = map_sum id (\<lambda>rs. (length h, h @ [RulesObj rs])) (generate_association_rules Fd c)"
proof -
  let ?f = "\<lambda>rs'. h @ [RulesObj rs']"
  have loop: "for_each (rules_of_itemset_h F (length h) c) Fd (?f [])
                = map_sum id ?f (for_each (rules_of_itemset Fd c) Fd [])"
    by (rule for_each_sim) (rule rules_of_itemset_h_eq[OF assms])
  show ?thesis
    by (cases "for_each (rules_of_itemset Fd c) Fd []")
       (simp_all add: generate_association_rules_h_def generate_association_rules_def Let_def
          alloc_def get_res_append[OF assms] loop)
qed

subsection \<open>Eclat: the vertical representation\<close>

lemma sets_preserved_refl: "sets_preserved h h"
  by (simp add: sets_preserved_def)

lemma sets_preserved_trans:
  "sets_preserved h h' \<Longrightarrow> sets_preserved h' h'' \<Longrightarrow> sets_preserved h h''"
  by (simp add: sets_preserved_def)

lemma sets_preserved_append: "sets_preserved h (h @ ys)"
  by (simp add: sets_preserved_def get_set_append)

lemma sets_preserved_update_res:
  assumes "get_res h a = Inr F"
  shows "sets_preserved h (h[a := ResObj F'])"
  unfolding sets_preserved_def
proof (intro allI impI)
  fix b S assume b: "get_set h b = Inr S"
  with assms have "b \<noteq> a"
    by (auto simp: get_set_def get_res_def split: if_splits obj.splits)
  with b show "get_set (h[a := ResObj F']) b = Inr S"
    by (auto simp: get_set_def split: if_splits)
qed

lemma get_res_update: "get_res h a = Inr F \<Longrightarrow> get_res (h[a := ResObj F']) a = Inr F'"
  by (auto simp: get_res_def split: if_splits)

lemma valid_refs_preserved:
  assumes "valid_refs h refs" "sets_preserved h h'"
  shows "valid_refs h' refs"
  unfolding valid_refs_def list_all_iff
proof
  fix r assume "r \<in> set refs"
  with assms(1) obtain S where "get_set h r = Inr S" by (rule valid_refs_get)
  with assms(2) have "get_set h' r = Inr S" by (simp add: sets_preserved_def)
  then show "case get_set h' r of Inl e \<Rightarrow> False | Inr S \<Rightarrow> True" by simp
qed

lemma snapshot_preserved:
  assumes "valid_refs h (map snd its)" "sets_preserved h h'"
  shows "snapshot h' its = snapshot h its"
proof -
  have "set_at h' r = set_at h r" if "(x, r) \<in> set its" for x r
  proof -
    from that have "r \<in> set (map snd its)" by force
    with assms(1) obtain S where S: "get_set h r = Inr S" by (rule valid_refs_get)
    with assms(2) have "get_set h' r = Inr S" by (simp add: sets_preserved_def)
    with S show ?thesis by (simp add: set_at_def)
  qed
  then show ?thesis unfolding snapshot_def by auto
qed

lemma update_fresh: "k \<notin> fst ` set al \<Longrightarrow> AList.update k v al = al @ [(k, v)]"
  by (induction al) auto

lemma map_entry_fresh:
  "k \<notin> fst ` set al \<Longrightarrow> AList.map_entry k f (al @ [(k, v)]) = al @ [(k, f v)]"
  by (induction al) auto

lemma add_tid_new:
  "item \<notin> fst ` set v \<Longrightarrow> add_tid tid item v = v @ [(item, {tid})]"
  by (simp add: add_tid_def Let_def update_fresh map_entry_fresh)

lemma add_tid_old:
  "item \<in> fst ` set v \<Longrightarrow> add_tid tid item v = AList.map_entry item (insert tid) v"
  by (simp add: add_tid_def Let_def)

lemma set_at_update_other: "b \<noteq> a \<Longrightarrow> set_at (h[a := ob]) b = set_at h b"
  by (simp add: set_at_def get_set_def)

lemma set_at_update_same: "a < length h \<Longrightarrow> set_at (h[a := SetObj S]) a = S"
  by (simp add: set_at_def get_set_def)

lemma snapshot_update_entry:
  assumes "map_of vh item = Some a" "distinct (map snd vh)" "a < length h"
  shows "snapshot (h[a := SetObj (f (set_at h a))]) vh = AList.map_entry item f (snapshot h vh)"
  using assms(1,2)
proof (induction vh)
  case Nil
  then show ?case by simp
next
  case (Cons p vh)
  obtain i b where p: "p = (i, b)" by (cases p)
  show ?case
  proof (cases "i = item")
    case True
    with Cons.prems(1) p have ba: "b = a" by simp
    from Cons.prems(2) p ba have "a \<notin> snd ` set vh" by auto
    then have "set_at (h[a := SetObj (f (set_at h a))]) r = set_at h r"
      if "(x, r) \<in> set vh" for x r
      using that by (intro set_at_update_other) force
    then have "snapshot (h[a := SetObj (f (set_at h a))]) vh = snapshot h vh"
      unfolding snapshot_def by auto
    with True ba p assms(3) show ?thesis
      by (simp add: snapshot_def set_at_update_same)
  next
    case False
    with Cons.prems(1) p have m: "map_of vh item = Some a" by simp
    then have "(item, a) \<in> set vh" by (rule map_of_SomeD)
    then have "a \<in> snd ` set vh" by force
    with Cons.prems(2) p have "b \<noteq> a" by auto
    moreover from Cons.prems(2) have "distinct (map snd vh)" by simp
    ultimately show ?thesis
      using False p Cons.IH[OF m] by (simp add: snapshot_def set_at_update_other)
  qed
qed

lemma snapshot_keys: "fst ` set (snapshot h vh) = fst ` set vh"
  by (force simp: snapshot_def)

lemma valid_refs_lt: "valid_refs h refs \<Longrightarrow> r \<in> set refs \<Longrightarrow> r < length h"
  by (erule (1) valid_refs_get) (auto simp: get_set_def split: if_splits)

lemma add_tid_h_eq:
  assumes "vertical_ok h vh"
  shows "\<exists>vh' h'. add_tid_h tid item (vh, h) = Inr (vh', h') \<and> vertical_ok h' vh'
           \<and> snapshot h' vh' = add_tid tid item (snapshot h vh)"
proof (cases "item \<in> fst ` set vh")
  case True
  then obtain a where a: "map_of vh item = Some a"
    by (metis domD dom_map_of_conv_image_fst)
  then have mem: "a \<in> set (map snd vh)" by (force dest: map_of_SomeD)
  from assms have v: "valid_refs h (map snd vh)" and d: "distinct (map snd vh)"
    by (simp_all add: vertical_ok_def)
  from v mem obtain S where S: "get_set h a = Inr S" by (rule valid_refs_get)
  then have sa: "set_at h a = S" by (simp add: set_at_def)
  from valid_refs_lt[OF v mem] have lt: "a < length h" .
  let ?h' = "h[a := SetObj (insert tid S)]"
  have run: "add_tid_h tid item (vh, h) = Inr (vh, ?h')"
    using True a S by (simp add: add_tid_h_def Let_def)
  have "valid_refs ?h' (map snd vh)"
    unfolding valid_refs_def list_all_iff
  proof
    fix r assume "r \<in> set (map snd vh)"
    with v obtain S' where "get_set h r = Inr S'" by (rule valid_refs_get)
    then show "case get_set ?h' r of Inl e \<Rightarrow> False | Inr S \<Rightarrow> True"
      by (cases "r = a") (auto simp: get_set_def split: if_splits)
  qed
  with d have ok: "vertical_ok ?h' vh" by (simp add: vertical_ok_def)
  from snapshot_update_entry[OF a d lt, of "insert tid"] sa
  have "snapshot ?h' vh = AList.map_entry item (insert tid) (snapshot h vh)" by simp
  also from True have "\<dots> = add_tid tid item (snapshot h vh)"
    by (simp add: add_tid_old snapshot_keys)
  finally show ?thesis using run ok by blast
next
  case False
  from assms have v: "valid_refs h (map snd vh)" and d: "distinct (map snd vh)"
    by (simp_all add: vertical_ok_def)
  let ?a = "length h"
  let ?vh' = "vh @ [(item, ?a)]"
  let ?h' = "h @ [SetObj {tid}]"
  have upd: "AList.update item ?a vh = ?vh'" using False by (rule update_fresh)
  have look: "map_of (AList.update item ?a vh) item = Some ?a"
    by (simp add: update_conv')
  have "add_tid_h tid item (vh, h) =
          (case map_of (AList.update item ?a vh) item of
             None \<Rightarrow> Inl KeyError
           | Some a \<Rightarrow>
               (case get_set (h @ [SetObj {}]) a of
                  Inl e \<Rightarrow> Inl e
                | Inr S \<Rightarrow> Inr (AList.update item ?a vh, (h @ [SetObj {}])[a := SetObj (insert tid S)])))"
    using False by (simp add: add_tid_h_def alloc_def Let_def del: map_of_append)
  also have "\<dots> = Inr (?vh', ?h')"
    unfolding look by (simp add: upd get_set_def)
  finally have run: "add_tid_h tid item (vh, h) = Inr (?vh', ?h')" .
  have fresh: "?a \<notin> set (map snd vh)"
    using valid_refs_lt[OF v, of ?a] by auto
  have "valid_refs ?h' (map snd vh)" using v by (rule valid_refs_append)
  then have "valid_refs ?h' (map snd ?vh')"
    by (simp add: valid_refs_def get_set_def)
  with d fresh have ok: "vertical_ok ?h' ?vh'" by (simp add: vertical_ok_def)
  have "snapshot ?h' ?vh' = snapshot ?h' vh @ [(item, {tid})]"
    by (simp add: snapshot_def set_at_def get_set_def)
  also have "snapshot ?h' vh = snapshot h vh" using v by (rule snapshot_append)
  also from False have "snapshot h vh @ [(item, {tid})] = add_tid tid item (snapshot h vh)"
    by (simp add: add_tid_new snapshot_keys)
  finally show ?thesis using run ok by blast
qed

lemma for_each_fold_sim:
  assumes "R st_h st"
    and "\<And>x st_h st. x \<in> set xs \<Longrightarrow> R st_h st \<Longrightarrow> \<exists>st_h'. body_h x st_h = Inr st_h' \<and> R st_h' (g x st)"
  shows "\<exists>st_h'. for_each body_h xs st_h = Inr st_h' \<and> R st_h' (fold g xs st)"
  using assms
proof (induction xs arbitrary: st_h st)
  case Nil
  then show ?case by simp
next
  case (Cons x xs)
  from Cons.prems(2)[OF _ Cons.prems(1), of x] obtain st1 where
    1: "body_h x st_h = Inr st1" and 2: "R st1 (g x st)" by auto
  have "\<exists>st_h'. for_each body_h xs st1 = Inr st_h' \<and> R st_h' (fold g xs (g x st))"
  proof (rule Cons.IH[OF 2])
    fix y s_h s assume "y \<in> set xs" "R s_h s"
    then show "\<exists>st_h'. body_h y s_h = Inr st_h' \<and> R st_h' (g y s)"
      using Cons.prems(2)[of y s_h s] by simp
  qed
  with 1 show ?case by simp
qed

lemma kept_get_set:
  assumes "kept h0 m h" "get_set h0 r = Inr S"
  shows "get_set h r = Inr S"
proof -
  from assms(2) have lt: "r < length h0" by (auto simp: get_set_def split: if_splits)
  from assms(1) have "take (length h0) h = h0" "length h0 \<le> length h" by (simp_all add: kept_def)
  with lt have "h ! r = h0 ! r" "r < length h" by (metis nth_take, simp)
  with assms(2) lt show ?thesis by (simp add: get_set_def)
qed

lemma add_tid_h_building:
  assumes "building h0 st_h v"
  shows "\<exists>st_h'. add_tid_h tid item st_h = Inr st_h' \<and> building h0 st_h' (add_tid tid item v)"
proof -
  obtain vh h where st: "st_h = (vh, h)" by (cases st_h)
  from assms st have ok: "vertical_ok h vh" and sn: "snapshot h vh = v"
    and k: "kept h0 (length h0) h" and f: "fresh_refs h0 vh"
    by (simp_all add: building_def)
  from add_tid_h_eq[OF ok, of tid item] obtain vh' h' where
    run: "add_tid_h tid item (vh, h) = Inr (vh', h')" and ok': "vertical_ok h' vh'"
    and sn': "snapshot h' vh' = add_tid tid item (snapshot h vh)" by blast
  from add_tid_h_kept[OF run k f] ok' sn' sn run st show ?thesis
    by (simp add: building_def)
qed

lemma build_vertical_representation_h_eq:
  assumes "valid_refs h0 (map snd Tr)"
  shows "\<exists>vh h1. build_vertical_representation_h h0 Tr = Inr (vh, h1) \<and> vertical_ok h1 vh
           \<and> snapshot h1 vh = build_vertical_representation (snapshot h0 Tr)"
proof -
  let ?g = "\<lambda>(tid, r). fold (add_tid tid) (sorted_list_of_set (set_at h0 r))"
  let ?body = "\<lambda>(tid, r) (vertical, h).
                 case get_set h r of
                   Inl e \<Rightarrow> Inl e
                 | Inr items \<Rightarrow> for_each (add_tid_h tid) (sorted_list_of_set items) (vertical, h)"
  have pure: "build_vertical_representation (snapshot h0 Tr) = fold ?g Tr []"
    unfolding build_vertical_representation_def snapshot_def fold_map
    by (rule arg_cong[where f = "\<lambda>f. fold f Tr []"]) auto
  have init: "building h0 ([], h0) []"
    by (simp add: building_def vertical_ok_def valid_refs_def snapshot_def kept_refl fresh_refs_def)
  have "\<exists>st'. for_each ?body Tr ([], h0) = Inr st' \<and> building h0 st' (fold ?g Tr [])"
  proof (rule for_each_fold_sim[where R = "building h0", OF init])
    fix x st_h v assume x: "x \<in> set Tr" and R: "building h0 st_h v"
    obtain tid r where xr: "x = (tid, r)" by (cases x)
    obtain vh h where st: "st_h = (vh, h)" by (cases st_h)
    from x xr have "r \<in> set (map snd Tr)" by force
    with assms obtain S where S: "get_set h0 r = Inr S" by (rule valid_refs_get)
    then have sa: "set_at h0 r = S" by (simp add: set_at_def)
    from R st have "kept h0 (length h0) h" by (simp add: building_def)
    from kept_get_set[OF this S] have get: "get_set h r = Inr S" .
    have "\<exists>st'. for_each (add_tid_h tid) (sorted_list_of_set S) st_h = Inr st'
            \<and> building h0 st' (fold (add_tid tid) (sorted_list_of_set S) v)"
      by (rule for_each_fold_sim[where R = "building h0", OF R]) (rule add_tid_h_building)
    with get sa show "\<exists>st'. ?body x st_h = Inr st' \<and> building h0 st' (?g x v)"
      by (simp add: xr st)
  qed
  then obtain vh h1 where "for_each ?body Tr ([], h0) = Inr (vh, h1)"
    "building h0 (vh, h1) (fold ?g Tr [])" by auto
  then show ?thesis
    unfolding build_vertical_representation_h_def pure by (auto simp: building_def)
qed

subsection \<open>Eclat: the recursion\<close>

lemma snapshot_Cons: "snapshot h ((y, r) # its) = (y, set_at h r) # snapshot h its"
  by (simp add: snapshot_def)

lemma snapshot_snoc: "snapshot h (its @ [(y, r)]) = snapshot h its @ [(y, set_at h r)]"
  by (simp add: snapshot_def)

lemma valid_refs_Cons:
  "valid_refs h (r # refs) \<longleftrightarrow> (\<exists>S. get_set h r = Inr S) \<and> valid_refs h refs"
  by (cases "get_set h r") (simp_all add: valid_refs_def)

lemma valid_refs_snoc:
  "valid_refs h (refs @ [r]) \<longleftrightarrow> valid_refs h refs \<and> (\<exists>S. get_set h r = Inr S)"
  by (cases "get_set h r") (simp_all add: valid_refs_def)

lemma for_each_intersect_h_eq:
  assumes "valid_refs h (map snd its)"
  shows "\<exists>new zs. for_each (intersect_h tids msc) its (acc, h) = Inr (acc @ new, h @ zs)
           \<and> valid_refs (h @ zs) (map snd new)
           \<and> snapshot (h @ zs) new
               = map (\<lambda>(y, E). (y, tids \<inter> E))
                   (filter (\<lambda>(y, E). msc \<le> int (card (tids \<inter> E))) (snapshot h its))"
  using assms
proof (induction its arbitrary: acc h)
  case Nil
  have "for_each (intersect_h tids msc) [] (acc, h) = Inr (acc @ [], h @ [])" by simp
  moreover have "valid_refs (h @ []) (map snd [])" by (simp add: valid_refs_def)
  moreover have "snapshot (h @ []) [] = map (\<lambda>(y, E). (y, tids \<inter> E))
                   (filter (\<lambda>(y, E). msc \<le> int (card (tids \<inter> E))) (snapshot h []))"
    by (simp add: snapshot_def)
  ultimately show ?case by blast
next
  case (Cons p its)
  obtain y r where p: "p = (y, r)" by (cases p)
  from Cons.prems p obtain E where E: "get_set h r = Inr E" and rest: "valid_refs h (map snd its)"
    by (auto simp: valid_refs_Cons)
  from E have sa: "set_at h r = E" by (simp add: set_at_def)
  let ?a = "length h"
  let ?h1 = "h @ [SetObj (tids \<inter> E)]"
  let ?keep = "msc \<le> int (card (tids \<inter> E))"
  let ?acc1 = "if ?keep then acc @ [(y, ?a)] else acc"
  have step: "intersect_h tids msc (y, r) (acc, h) = Inr (?acc1, ?h1)"
    using E by (simp add: intersect_h_def alloc_def Let_def)
  from rest have rest1: "valid_refs ?h1 (map snd its)" by (rule valid_refs_append)
  from Cons.IH[OF rest1, of ?acc1] obtain new zs where
    run: "for_each (intersect_h tids msc) its (?acc1, ?h1) = Inr (?acc1 @ new, ?h1 @ zs)"
    and v: "valid_refs (?h1 @ zs) (map snd new)"
    and sn: "snapshot (?h1 @ zs) new
               = map (\<lambda>(y, E). (y, tids \<inter> E))
                   (filter (\<lambda>(y, E). msc \<le> int (card (tids \<inter> E))) (snapshot ?h1 its))"
    by blast
  have sn1: "snapshot ?h1 its = snapshot h its" using rest by (rule snapshot_append)
  have ga: "get_set (?h1 @ zs) ?a = Inr (tids \<inter> E)"
    by (rule get_set_append) (simp add: get_set_def)
  let ?new = "if ?keep then (y, ?a) # new else new"
  let ?zs = "SetObj (tids \<inter> E) # zs"
  have 1: "for_each (intersect_h tids msc) (p # its) (acc, h) = Inr (acc @ ?new, h @ ?zs)"
    using step run by (simp add: p)
  have 2: "valid_refs (h @ ?zs) (map snd ?new)"
    using v ga by (simp add: valid_refs_Cons)
  have 3: "snapshot (h @ ?zs) ?new
             = map (\<lambda>(y, E). (y, tids \<inter> E))
                 (filter (\<lambda>(y, E). msc \<le> int (card (tids \<inter> E))) (snapshot h (p # its)))"
  proof -
    from ga have saa: "set_at (h @ ?zs) ?a = tids \<inter> E" by (simp add: set_at_def)
    from sn show ?thesis by (simp add: p snapshot_Cons sa sn1 saa)
  qed
  from 1 2 3 show ?case by blast
qed

lemma eclat_recursive_h_eq:
  "valid_refs h (map snd its) \<Longrightarrow> get_res h results = Inr res \<Longrightarrow>
   rel_sum (=) (recorded h results)
     (eclat_recursive prefix (snapshot h its) msc res n)
     (eclat_recursive_h prefix its msc results n h)"
proof (induction "length its" arbitrary: its prefix h res rule: less_induct)
  case less
  show ?case
  proof (cases its rule: rev_cases)
    case Nil
    with less.prems(2) show ?thesis
      by (simp add: snapshot_def eclat_recursive_Nil eclat_recursive_h_Nil recorded_def
            sets_preserved_refl)
  next
    case (snoc its' p)
    obtain x r where p: "p = (x, r)" by (cases p)
    from less.prems(1) snoc p obtain tids where tids: "get_set h r = Inr tids"
      and v': "valid_refs h (map snd its')"
      by (auto simp: valid_refs_snoc)
    from tids have sa: "set_at h r = tids" by (simp add: set_at_def)
    have len': "length its' < length its" unfolding snoc by simp
    note unf = snoc p snapshot_snoc sa eclat_recursive_snoc eclat_recursive_h_snoc tids
    show ?thesis
    proof (cases "msc \<le> int (card tids)")
      case False
      with less.hyps[OF len' v' less.prems(2), of prefix] show ?thesis
        unfolding unf by simp
    next
      case True
      show ?thesis
      proof (cases "n = 0")
        case n0: True
        with True show ?thesis unfolding unf by (simp add: true_div_def)
      next
        case npos: False
        let ?supp = "rat_of_nat (card tids) / rat_of_nat n"
        let ?res1 = "AList.update (insert x prefix) ?supp res"
        let ?h1 = "h[results := ResObj ?res1]"
        have td: "true_div (rat_of_nat (card tids)) (rat_of_nat n) = Inr ?supp"
          using npos by (simp add: true_div_def)
        have p1: "sets_preserved h ?h1" using less.prems(2) by (rule sets_preserved_update_res)
        have r1: "get_res ?h1 results = Inr ?res1" using less.prems(2) by (rule get_res_update)
        from v' p1 have v1: "valid_refs ?h1 (map snd its')" by (rule valid_refs_preserved)
        from v' p1 have s1: "snapshot ?h1 its' = snapshot h its'" by (rule snapshot_preserved)
        from for_each_intersect_h_eq[OF v1, of tids msc "[]"] obtain new zs where
          inter: "for_each (intersect_h tids msc) its' ([], ?h1) = Inr (new, ?h1 @ zs)"
          and vn: "valid_refs (?h1 @ zs) (map snd new)"
          and sn: "snapshot (?h1 @ zs) new
               = map (\<lambda>(y, E). (y, tids \<inter> E))
                   (filter (\<lambda>(y, E). msc \<le> int (card (tids \<inter> E))) (snapshot h its'))"
          unfolding s1 by auto
        let ?h2 = "?h1 @ zs"
        have p2: "sets_preserved h ?h2"
          using p1 sets_preserved_append by (rule sets_preserved_trans)
        have r2: "get_res ?h2 results = Inr ?res1" using r1 by (rule get_res_append)
        from for_each_intersect_h_length[OF inter] have lenn: "length new < length its"
          unfolding snoc by simp
        note ih1 = less.hyps[OF lenn vn r2, of "insert x prefix", unfolded sn]
        let ?pure1 = "eclat_recursive (insert x prefix)
                        (map (\<lambda>(y, E). (y, tids \<inter> E))
                          (filter (\<lambda>(y, E). msc \<le> int (card (tids \<inter> E))) (snapshot h its')))
                        msc ?res1 n"
        show ?thesis
        proof (cases ?pure1)
          case (Inl e)
          with ih1 have "eclat_recursive_h (insert x prefix) new msc results n ?h2 = Inl e"
            by (cases "eclat_recursive_h (insert x prefix) new msc results n ?h2") simp_all
          with Inl True td less.prems(2) inter show ?thesis
            unfolding unf by simp
        next
          case (Inr res2)
          with ih1 obtain h3 where
            rec1: "eclat_recursive_h (insert x prefix) new msc results n ?h2 = Inr h3"
            and rc: "recorded ?h2 results res2 h3"
            by (cases "eclat_recursive_h (insert x prefix) new msc results n ?h2") simp_all
          from rc have r3: "get_res h3 results = Inr res2" and p23: "sets_preserved ?h2 h3"
            by (simp_all add: recorded_def)
          from p2 p23 have p3: "sets_preserved h h3" by (rule sets_preserved_trans)
          from v' p3 have v3: "valid_refs h3 (map snd its')" by (rule valid_refs_preserved)
          from v' p3 have s3: "snapshot h3 its' = snapshot h its'" by (rule snapshot_preserved)
          note ih2 = less.hyps[OF len' v3 r3, of prefix, unfolded s3]
          have "rel_sum (=) (recorded h results)
                  (eclat_recursive prefix (snapshot h its') msc res2 n)
                  (eclat_recursive_h prefix its' msc results n h3)"
            using ih2 p3
            by (cases "eclat_recursive prefix (snapshot h its') msc res2 n";
                cases "eclat_recursive_h prefix its' msc results n h3")
               (auto simp: recorded_def intro: sets_preserved_trans)
          with Inr True td less.prems(2) inter rec1 show ?thesis
            unfolding unf by simp
        qed
      qed
    qed
  qed
qed

lemma length_snapshot: "length (snapshot h Tr) = length Tr"
  by (simp add: snapshot_def)

lemma eclat_h_eq:
  assumes "get_db h db = Inr Tr" "valid_refs h (map snd Tr)"
  shows "rel_sum (=) returned (eclat (snapshot h Tr) s t0 t1) (eclat_h h db s t0 t1)"
proof -
  let ?T = "snapshot h Tr"
  let ?msc = "max 1 \<lceil>s * of_nat (length Tr)\<rceil>"
  from build_vertical_representation_h_eq[OF assms(2)] obtain vh h1 where
    bv: "build_vertical_representation_h h Tr = Inr (vh, h1)" and ok: "vertical_ok h1 vh"
    and sn: "snapshot h1 vh = build_vertical_representation ?T" by blast
  let ?h2 = "h1 @ [ResObj []]"
  from ok have v1: "valid_refs h1 (map snd vh)" by (simp add: vertical_ok_def)
  then have v2: "valid_refs ?h2 (map snd vh)" by (rule valid_refs_append)
  from v1 have s2: "snapshot ?h2 vh = build_vertical_representation ?T"
    unfolding sn[symmetric] by (rule snapshot_append)
  have r2: "get_res ?h2 (length h1) = Inr []" by (rule get_res_last)
  note rec = eclat_recursive_h_eq[OF v2 r2, of "{}" ?msc "length Tr", unfolded s2]
  show ?thesis
  proof (cases "eclat_recursive {} (build_vertical_representation ?T) ?msc [] (length Tr)")
    case (Inl e)
    with rec have "eclat_recursive_h {} vh ?msc (length h1) (length Tr) ?h2 = Inl e"
      by (cases "eclat_recursive_h {} vh ?msc (length h1) (length Tr) ?h2") simp_all
    with Inl show ?thesis
      by (simp add: eclat_def eclat_h_def Let_def alloc_def assms(1) bv length_snapshot)
  next
    case (Inr res)
    with rec obtain h3 where
      "eclat_recursive_h {} vh ?msc (length h1) (length Tr) ?h2 = Inr h3"
      "get_res h3 (length h1) = Inr res"
      by (cases "eclat_recursive_h {} vh ?msc (length h1) (length Tr) ?h2")
         (simp_all add: recorded_def)
    with Inr show ?thesis
      by (simp add: eclat_def eclat_h_def Let_def alloc_def assms(1) bv length_snapshot
            returned_def)
  qed
qed

lemma valid_dbE:
  assumes "valid_db h db"
  obtains Tr where "get_db h db = Inr Tr" "valid_refs h (map snd Tr)"
    "finite_items (snapshot h Tr)" "distinct (map fst (snapshot h Tr))"
proof -
  from assms obtain Tr where Tr: "get_db h db = Inr Tr" and d: "distinct (map fst Tr)"
    and fin: "list_all (\<lambda>r. case get_set h r of Inl e \<Rightarrow> False | Inr S \<Rightarrow> finite S) (map snd Tr)"
    unfolding valid_db_def by (cases "get_db h db") auto
  have v: "valid_refs h (map snd Tr)"
    unfolding valid_refs_def list_all_iff
  proof
    fix r assume "r \<in> set (map snd Tr)"
    with fin show "case get_set h r of Inl e \<Rightarrow> False | Inr S \<Rightarrow> True"
      unfolding list_all_iff by (cases "get_set h r") auto
  qed
  have f: "finite_items (snapshot h Tr)"
    unfolding finite_items_def
  proof
    fix items assume "items \<in> snd ` set (snapshot h Tr)"
    then obtain tid r where m: "(tid, r) \<in> set Tr" and i: "items = set_at h r"
      by (auto simp: snapshot_def)
    from m have "r \<in> set (map snd Tr)" by force
    with fin have "case get_set h r of Inl e \<Rightarrow> False | Inr S \<Rightarrow> finite S"
      unfolding list_all_iff by blast
    with i show "finite items" by (cases "get_set h r") (simp_all add: set_at_def)
  qed
  have "map fst (snapshot h Tr) = map fst Tr" by (induction Tr) (auto simp: snapshot_def)
  with d have "distinct (map fst (snapshot h Tr))" by simp
  with Tr v f show ?thesis by (rule that)
qed

lemma example_db_finite: "finite_items example_db"
  by (simp add: finite_items_def example_db_def)

lemma example_db_distinct: "distinct (map fst example_db)"
  by (simp add: example_db_def)

lemma apriori_pairs:
  assumes "finite_items T"
  shows "\<exists>fa. apriori T s t0 t1 = Inr (fa, t1 - t0) \<and> distinct (map fst fa)
          \<and> (\<forall>I v. (I, v) \<in> set fa \<longleftrightarrow> frequent T s I \<and> v = relative_support T I)"
proof -
  from apriori_correct[OF assms, of s t0 t1]
  obtain fa where fa: "apriori T s t0 t1 = Inr (fa, t1 - t0)" "distinct (map fst fa)"
    "\<forall>I. map_of fa I = (if frequent T s I then Some (relative_support T I) else None)"
    by blast
  have "(I, v) \<in> set fa \<longleftrightarrow> frequent T s I \<and> v = relative_support T I" for I v
    unfolding dict_pairs[OF fa(2)] fa(3)[rule_format] by auto
  with fa(1,2) show ?thesis by blast
qed

lemma eclat_pairs:
  assumes "finite_items T" "distinct (map fst T)"
  shows "\<exists>fe. eclat T s t0 t1 = Inr (fe, t1 - t0) \<and> distinct (map fst fe)
          \<and> (\<forall>I v. (I, v) \<in> set fe \<longleftrightarrow> eclat_frequent T s I \<and> v = relative_support T I)"
proof -
  from eclat_correct[OF assms, of s t0 t1]
  obtain fe where fe: "eclat T s t0 t1 = Inr (fe, t1 - t0)" "distinct (map fst fe)"
    "\<forall>I. map_of fe I = (if eclat_frequent T s I then Some (relative_support T I) else None)"
    by blast
  have "(I, v) \<in> set fe \<longleftrightarrow> eclat_frequent T s I \<and> v = relative_support T I" for I v
    unfolding dict_pairs[OF fe(2)] fe(3)[rule_format] by auto
  with fe(1,2) show ?thesis by blast
qed

section \<open>The claims\<close>




text \<open>
  C2: for a database with at least one transaction, every itemset in the result map of
  \<^verbatim>\<open>apriori\<close>, and likewise of \<^verbatim>\<open>eclat\<close>, is recorded with the number of transactions
  whose items include it, divided by the number of transactions.
\<close>

theorem support_correct:
  assumes "finite_items T" "distinct (map fst T)" "T \<noteq> []"
  shows "\<exists>fa fe. apriori T s t0 t1 = Inr (fa, t1 - t0) \<and> eclat T s t0 t1 = Inr (fe, t1 - t0)
           \<and> (\<forall>(I, v) \<in> set fa \<union> set fe.
                 v = of_nat (superset_count T I) / of_nat (length T))"
proof -
  from apriori_pairs[OF assms(1), of s t0 t1]
  obtain fa where fa: "apriori T s t0 t1 = Inr (fa, t1 - t0)"
    "\<And>I v. (I, v) \<in> set fa \<longleftrightarrow> frequent T s I \<and> v = relative_support T I"
    by blast
  from eclat_pairs[OF assms(1,2), of s t0 t1]
  obtain fe where fe: "eclat T s t0 t1 = Inr (fe, t1 - t0)"
    "\<And>I v. (I, v) \<in> set fe \<longleftrightarrow> eclat_frequent T s I \<and> v = relative_support T I"
    by blast
  have "\<forall>(I, v) \<in> set fa \<union> set fe. v = of_nat (superset_count T I) / of_nat (length T)"
    using fa(2) fe(2) by (auto simp: relative_support_def)
  with fa(1) fe(1) show ?thesis by blast
qed

theorem support_correct_witness:
  "finite_items example_db \<and> distinct (map fst example_db) \<and> example_db \<noteq> []
   \<and> (\<exists>fa fe. apriori example_db (1 / 2) 0 1 = Inr (fa, 1 - 0)
               \<and> eclat example_db (1 / 2) 0 1 = Inr (fe, 1 - 0)
               \<and> (\<forall>(I, v) \<in> set fa \<union> set fe.
                     v = of_nat (superset_count example_db I) / of_nat (length example_db)))"
proof -
  have h: "example_db \<noteq> []" by (simp add: example_db_def)
  from support_correct[OF example_db_finite example_db_distinct h, of "1 / 2" 0 1]
  show ?thesis using example_db_finite example_db_distinct h by simp
qed

text \<open>
  C3 (downward closure): in the result map of either engine, every itemset \<open>I\<close> with at least
  two items has each of its subsets with one item less in the map too, recorded with a
  support that is at least the support recorded for \<open>I\<close>.
\<close>

theorem downward_closure:
  assumes "finite_items T" "distinct (map fst T)"
  shows "\<exists>fa fe. apriori T s t0 t1 = Inr (fa, t1 - t0) \<and> eclat T s t0 t1 = Inr (fe, t1 - t0)
           \<and> (\<forall>fr \<in> {fa, fe}. \<forall>(I, v) \<in> set fr. 2 \<le> card I \<longrightarrow>
                 (\<forall>J. J \<subseteq> I \<and> card J = card I - 1 \<longrightarrow> (\<exists>w. (J, w) \<in> set fr \<and> v \<le> w)))"
proof -
  from apriori_pairs[OF assms(1), of s t0 t1]
  obtain fa where fa: "apriori T s t0 t1 = Inr (fa, t1 - t0)"
    "\<And>I v. (I, v) \<in> set fa \<longleftrightarrow> frequent T s I \<and> v = relative_support T I"
    by blast
  from eclat_pairs[OF assms(1,2), of s t0 t1]
  obtain fe where fe: "eclat T s t0 t1 = Inr (fe, t1 - t0)"
    "\<And>I v. (I, v) \<in> set fe \<longleftrightarrow> eclat_frequent T s I \<and> v = relative_support T I"
    by blast
  have ne: "J \<noteq> {}" if "2 \<le> card I" "card J = card I - 1" for I J :: Itemset
  proof
    assume e: "J = {}"
    have "card J = 0" unfolding e by simp
    with that show False by simp
  qed
  have a: "\<exists>w. (J, w) \<in> set fa \<and> v \<le> w"
    if "(I, v) \<in> set fa" "2 \<le> card I" "J \<subseteq> I" "card J = card I - 1" for I v J
  proof -
    from that(1) have I: "frequent T s I" "v = relative_support T I" by (simp_all add: fa(2))
    from I(1) that(3) ne[OF that(2,4)] have "frequent T s J" by (rule frequent_subset)
    then have "(J, relative_support T J) \<in> set fa" by (simp add: fa(2))
    moreover have "v \<le> relative_support T J"
      unfolding I(2) using that(3) by (rule relative_support_antitone)
    ultimately show ?thesis by blast
  qed
  have e: "\<exists>w. (J, w) \<in> set fe \<and> v \<le> w"
    if "(I, v) \<in> set fe" "2 \<le> card I" "J \<subseteq> I" "card J = card I - 1" for I v J
  proof -
    from that(1) have I: "eclat_frequent T s I" "v = relative_support T I" by (simp_all add: fe(2))
    from superset_count_antitone[OF that(3), of T]
    have "int (superset_count T I) \<le> int (superset_count T J)" by simp
    with I(1) that(3) ne[OF that(2,4)] have "eclat_frequent T s J"
      unfolding eclat_frequent_def by (meson order_trans)
    then have "(J, relative_support T J) \<in> set fe" by (simp add: fe(2))
    moreover have "v \<le> relative_support T J"
      unfolding I(2) using that(3) by (rule relative_support_antitone)
    ultimately show ?thesis by blast
  qed
  have "\<forall>fr \<in> {fa, fe}. \<forall>(I, v) \<in> set fr. 2 \<le> card I \<longrightarrow>
                 (\<forall>J. J \<subseteq> I \<and> card J = card I - 1 \<longrightarrow> (\<exists>w. (J, w) \<in> set fr \<and> v \<le> w))"
    using a e by blast
  with fa(1) fe(1) show ?thesis by blast
qed

theorem downward_closure_witness:
  "finite_items example_db \<and> distinct (map fst example_db)
   \<and> (\<exists>fa fe. apriori example_db (1 / 2) 0 1 = Inr (fa, 1 - 0)
               \<and> eclat example_db (1 / 2) 0 1 = Inr (fe, 1 - 0)
               \<and> (\<forall>fr \<in> {fa, fe}. \<forall>(I, v) \<in> set fr. 2 \<le> card I \<longrightarrow>
                 (\<forall>J. J \<subseteq> I \<and> card J = card I - 1 \<longrightarrow> (\<exists>w. (J, w) \<in> set fr \<and> v \<le> w))))"
proof -
  from downward_closure[OF example_db_finite example_db_distinct, of "1 / 2" 0 1]
  show ?thesis using example_db_finite example_db_distinct by simp
qed

text \<open>
  C6: on a database with no transaction both engines return the empty result map for every
  threshold, with no exception (no division by zero), and the rule generator returns the
  empty rule list on the empty map.
\<close>

theorem empty_database:
  "apriori [] s t0 t1 = Inr ([], t1 - t0) \<and> eclat [] s t0 t1 = Inr ([], t1 - t0)
   \<and> generate_association_rules [] c = Inr []"
  by (simp add: apriori_def count_items_def apriori_loop_Nil eclat_def
        build_vertical_representation_def eclat_recursive_Nil generate_association_rules_def)












lemma in_emit:
  assumes "r \<in> set (emit F c itemset sup_xy tup)"
  shows "antecedent r = set tup" "consequent r = itemset - set tup" "support r = sup_xy"
    "confidence r = sup_xy / dict_get F (set tup) 0"
    "lift r = confidence r / dict_get F (itemset - set tup) 0"
    "dict_get F (set tup) 0 \<noteq> 0" "dict_get F (itemset - set tup) 0 \<noteq> 0"
    "c \<le> confidence r"
  using assms by (auto simp: emit_def Let_def split: if_splits)

lemma rule_origin:
  assumes "r \<in> set (concat (map (emit_itemset F c) F))"
  shows "\<exists>itemset sup_xy tup. (itemset, sup_xy) \<in> set F \<and> 2 \<le> card itemset
           \<and> set tup \<subseteq> itemset \<and> set tup \<noteq> {} \<and> set tup \<noteq> itemset
           \<and> r \<in> set (emit F c itemset sup_xy tup)"
proof -
  from assms obtain p where p: "p \<in> set F" "r \<in> set (emit_itemset F c p)" by auto
  obtain itemset sup_xy where eq: "p = (itemset, sup_xy)" by (cases p)
  from p(2)[unfolded eq] obtain tup where "2 \<le> card itemset" "set tup \<subseteq> itemset"
    "set tup \<noteq> {}" "set tup \<noteq> itemset" "r \<in> set (emit F c itemset sup_xy tup)"
    by (rule in_emit_itemset)
  with p(1) eq show ?thesis by blast
qed

lemma dict_get_nonzero:
  assumes "dict_get F k 0 \<noteq> (0::rat)"
  shows "\<exists>v. map_of F k = Some v \<and> v \<noteq> 0 \<and> dict_get F k 0 = v \<and> (k, v) \<in> set F"
  using assms by (auto simp: dict_get_def split: option.splits dest: map_of_SomeD)




text \<open>
  C10: for every result map with supports in \<open>[0,1]\<close>, also one that violates downward
  closure, and every \<^verbatim>\<open>min_confidence\<close>, the rule generator returns a rule list and raises
  no \<^verbatim>\<open>ZeroDivisionError\<close>: the antecedent and the consequent of every rule returned are
  keys of the map with a support that is not zero, hence positive.
\<close>

theorem rules_never_divide_by_zero:
  "\<exists>rs. generate_association_rules F c = Inr rs
     \<and> (\<forall>r \<in> set rs. \<exists>vx vy.
           map_of F (antecedent r) = Some vx \<and> vx \<noteq> 0
           \<and> map_of F (consequent r) = Some vy \<and> vy \<noteq> 0
           \<and> (supports_in_unit_interval F \<longrightarrow> 0 < vx \<and> 0 < vy))"
proof -
  let ?rs = "concat (map (emit_itemset F c) F)"
  have "\<exists>vx vy. map_of F (antecedent r) = Some vx \<and> vx \<noteq> 0
           \<and> map_of F (consequent r) = Some vy \<and> vy \<noteq> 0
           \<and> (supports_in_unit_interval F \<longrightarrow> 0 < vx \<and> 0 < vy)"
    if "r \<in> set ?rs" for r
  proof -
    from rule_origin[OF that] obtain itemset sup_xy tup where
      r: "r \<in> set (emit F c itemset sup_xy tup)"
      by blast
    note e = in_emit[OF r]
    from dict_get_nonzero[OF e(6)] obtain vx where
      vx: "map_of F (set tup) = Some vx" "vx \<noteq> 0" "(set tup, vx) \<in> set F" by blast
    from dict_get_nonzero[OF e(7)] obtain vy where
      vy: "map_of F (itemset - set tup) = Some vy" "vy \<noteq> 0" "(itemset - set tup, vy) \<in> set F"
      by blast
    have "0 < vx \<and> 0 < vy" if "supports_in_unit_interval F"
      using that vx(2,3) vy(2,3) unfolding supports_in_unit_interval_def by fastforce
    with vx(1,2) vy(1,2) show ?thesis unfolding e(1,2) by blast
  qed
  then show ?thesis
    unfolding generate_association_rules_eq by blast
qed

theorem rules_never_divide_by_zero_witness:
  "supports_in_unit_interval unordered_result
   \<and> (\<exists>rs. generate_association_rules unordered_result 0 = Inr rs
         \<and> (\<forall>r \<in> set rs. \<exists>vx vy.
               map_of unordered_result (antecedent r) = Some vx \<and> vx \<noteq> 0
               \<and> map_of unordered_result (consequent r) = Some vy \<and> vy \<noteq> 0
               \<and> 0 < vx \<and> 0 < vy))"
proof -
  have u: "supports_in_unit_interval unordered_result"
    unfolding supports_in_unit_interval_def unordered_result_def by simp
  from rules_never_divide_by_zero[of unordered_result 0] u
  show ?thesis by blast
qed

lemma frequent_antitone: "s \<le> s' \<Longrightarrow> frequent T s' I \<Longrightarrow> frequent T s I"
  by (auto simp: frequent_def)

lemma eclat_frequent_antitone:
  assumes "s \<le> s'" "eclat_frequent T s' I"
  shows "eclat_frequent T s I"
proof -
  from assms(1) have "s * rat_of_nat (length T) \<le> s' * rat_of_nat (length T)"
    by (intro mult_right_mono) simp_all
  then have "\<lceil>s * rat_of_nat (length T)\<rceil> \<le> \<lceil>s' * rat_of_nat (length T)\<rceil>"
    by (rule ceiling_mono)
  with assms(2) show ?thesis by (auto simp: eclat_frequent_def)
qed

lemma length_keys_mono:
  fixes fr fr' :: FrequentItemsets
  assumes "distinct (map fst fr)" "distinct (map fst fr')" "fst ` set fr' \<subseteq> fst ` set fr"
  shows "length fr' \<le> length fr"
proof -
  have "length fr' = card (set (map fst fr'))"
    using assms(2) by (simp only: distinct_card length_map)
  also have "\<dots> \<le> card (set (map fst fr))"
    using assms(3) by (intro card_mono) simp_all
  also have "\<dots> = length fr"
    using assms(1) by (simp only: distinct_card length_map)
  finally show ?thesis .
qed

text \<open>
  C7: on a fixed database a larger \<^verbatim>\<open>min_support\<close> never gives a result map with more
  itemsets, for either engine, and on a fixed result map a larger \<^verbatim>\<open>min_confidence\<close> never
  gives more rules.
\<close>

theorem threshold_monotone:
  assumes "finite_items T" "distinct (map fst T)" "s \<le> s'" "c \<le> c'"
  shows "\<exists>fa fa' fe fe' rs rs'.
           apriori T s t0 t1 = Inr (fa, t1 - t0) \<and> apriori T s' t0 t1 = Inr (fa', t1 - t0)
           \<and> eclat T s t0 t1 = Inr (fe, t1 - t0) \<and> eclat T s' t0 t1 = Inr (fe', t1 - t0)
           \<and> generate_association_rules F c = Inr rs
           \<and> generate_association_rules F c' = Inr rs'
           \<and> length fa' \<le> length fa \<and> length fe' \<le> length fe \<and> length rs' \<le> length rs"
proof -
  from apriori_pairs[OF assms(1), of s t0 t1]
  obtain fa where fa: "apriori T s t0 t1 = Inr (fa, t1 - t0)" "distinct (map fst fa)"
    "\<And>I v. (I, v) \<in> set fa \<longleftrightarrow> frequent T s I \<and> v = relative_support T I"
    by blast
  from apriori_pairs[OF assms(1), of s' t0 t1]
  obtain fa' where fa': "apriori T s' t0 t1 = Inr (fa', t1 - t0)" "distinct (map fst fa')"
    "\<And>I v. (I, v) \<in> set fa' \<longleftrightarrow> frequent T s' I \<and> v = relative_support T I"
    by blast
  from eclat_pairs[OF assms(1,2), of s t0 t1]
  obtain fe where fe: "eclat T s t0 t1 = Inr (fe, t1 - t0)" "distinct (map fst fe)"
    "\<And>I v. (I, v) \<in> set fe \<longleftrightarrow> eclat_frequent T s I \<and> v = relative_support T I"
    by blast
  from eclat_pairs[OF assms(1,2), of s' t0 t1]
  obtain fe' where fe': "eclat T s' t0 t1 = Inr (fe', t1 - t0)" "distinct (map fst fe')"
    "\<And>I v. (I, v) \<in> set fe' \<longleftrightarrow> eclat_frequent T s' I \<and> v = relative_support T I"
    by blast
  have "fst ` set fa' \<subseteq> fst ` set fa"
  proof
    fix I assume "I \<in> fst ` set fa'"
    then obtain v where "(I, v) \<in> set fa'" by auto
    then have "frequent T s' I" by (simp add: fa'(3))
    with assms(3) have "frequent T s I" by (rule frequent_antitone)
    then have "(I, relative_support T I) \<in> set fa" by (simp add: fa(3))
    then show "I \<in> fst ` set fa" by (rule image_eqI[rotated]) simp
  qed
  with fa(2) fa'(2) have 1: "length fa' \<le> length fa" by (rule length_keys_mono)
  have "fst ` set fe' \<subseteq> fst ` set fe"
  proof
    fix I assume "I \<in> fst ` set fe'"
    then obtain v where "(I, v) \<in> set fe'" by auto
    then have "eclat_frequent T s' I" by (simp add: fe'(3))
    with assms(3) have "eclat_frequent T s I" by (rule eclat_frequent_antitone)
    then have "(I, relative_support T I) \<in> set fe" by (simp add: fe(3))
    then show "I \<in> fst ` set fe" by (rule image_eqI[rotated]) simp
  qed
  with fe(2) fe'(2) have 2: "length fe' \<le> length fe" by (rule length_keys_mono)
  note 3 = rules_length_mono[OF assms(4), of F]
  from fa(1) fa'(1) fe(1) fe'(1) 1 2 3 show ?thesis
    unfolding generate_association_rules_eq by blast
qed

theorem threshold_monotone_witness:
  "finite_items example_db \<and> distinct (map fst example_db) \<and> (1 / 2 :: rat) \<le> 3 / 4
   \<and> (6 / 10 :: rat) \<le> 1
   \<and> (\<exists>fa fa' fe fe' rs rs'.
           apriori example_db (1 / 2) 0 1 = Inr (fa, 1 - 0)
           \<and> apriori example_db (3 / 4) 0 1 = Inr (fa', 1 - 0)
           \<and> eclat example_db (1 / 2) 0 1 = Inr (fe, 1 - 0)
           \<and> eclat example_db (3 / 4) 0 1 = Inr (fe', 1 - 0)
           \<and> generate_association_rules example_result (6 / 10) = Inr rs
           \<and> generate_association_rules example_result 1 = Inr rs'
           \<and> length fa' \<le> length fa \<and> length fe' \<le> length fe \<and> length rs' \<le> length rs)"
proof -
  have h1: "(1 / 2 :: rat) \<le> 3 / 4" by simp
  have h2: "(6 / 10 :: rat) \<le> 1" by simp
  from threshold_monotone[OF example_db_finite example_db_distinct h1 h2, of 0 1 example_result]
  show ?thesis using example_db_finite example_db_distinct by simp
qed

text \<open>
  C9: on a heap where \<^verbatim>\<open>transactions\<close> refers to a dictionary of the database (distinct
  identifiers, each referring to a finite set) and \<^verbatim>\<open>frequent_itemsets\<close> refers to a result
  dictionary, a call of \<^verbatim>\<open>apriori\<close>, of \<^verbatim>\<open>eclat\<close> and of \<^verbatim>\<open>generate_association_rules\<close>
  returns, every object that was on the heap before the call (the dictionary of the
  transactions, its item sets, the result dictionary) is the same object with the same
  content after it, and the reference returned is to an object that did not exist before.
\<close>

theorem arguments_unchanged:
  assumes "valid_db h db" "get_res h F = Inr Fd"
  shows "\<exists>fa ha fe he rs hr.
           apriori_h h db s t0 t1 = Inr ((fa, t1 - t0), ha)
           \<and> take (length h) ha = h \<and> length h \<le> fa \<and> fa < length ha
           \<and> eclat_h h db s t0 t1 = Inr ((fe, t1 - t0), he)
           \<and> take (length h) he = h \<and> length h \<le> fe \<and> fe < length he
           \<and> generate_association_rules_h h F c = Inr (rs, hr)
           \<and> take (length h) hr = h \<and> length h \<le> rs \<and> rs < length hr"
proof -
  from assms(1) obtain Tr where Tr: "get_db h db = Inr Tr" "valid_refs h (map snd Tr)"
    and fin: "finite_items (snapshot h Tr)" and d: "distinct (map fst (snapshot h Tr))"
    by (rule valid_dbE)
  from apriori_correct[OF fin, of s t0 t1] obtain fr where
    "apriori (snapshot h Tr) s t0 t1 = Inr (fr, t1 - t0)" by blast
  with apriori_h_eq[OF Tr, of s t0 t1]
  have a: "apriori_h h db s t0 t1 = Inr ((length h, t1 - t0), h @ [ResObj fr])" by simp
  from eclat_correct[OF fin d, of s t0 t1] obtain fr' where
    e0: "eclat (snapshot h Tr) s t0 t1 = Inr (fr', t1 - t0)" by blast
  from eclat_h_eq[OF Tr, of s t0 t1] e0 obtain fe he where
    e: "eclat_h h db s t0 t1 = Inr ((fe, t1 - t0), he)"
    by (cases "eclat_h h db s t0 t1") (auto simp: returned_def)
  from generate_association_rules_h_eq[OF assms(2), of c] generate_association_rules_eq[of Fd c]
  obtain rs hr where g: "generate_association_rules_h h F c = Inr (rs, hr)" by simp
  from a apriori_h_frame[OF a] e eclat_h_frame[OF e] g generate_association_rules_h_frame[OF g]
  show ?thesis by blast
qed

theorem arguments_unchanged_witness:
  "valid_db example_heap 4 \<and> get_res example_heap 5 = Inr example_result
   \<and> (\<exists>fa ha fe he rs hr.
           apriori_h example_heap 4 (1 / 2) 0 1 = Inr ((fa, 1 - 0), ha)
           \<and> take (length example_heap) ha = example_heap
           \<and> length example_heap \<le> fa \<and> fa < length ha
           \<and> eclat_h example_heap 4 (1 / 2) 0 1 = Inr ((fe, 1 - 0), he)
           \<and> take (length example_heap) he = example_heap
           \<and> length example_heap \<le> fe \<and> fe < length he
           \<and> generate_association_rules_h example_heap 5 (6 / 10) = Inr (rs, hr)
           \<and> take (length example_heap) hr = example_heap
           \<and> length example_heap \<le> rs \<and> rs < length hr)"
proof -
  have v: "valid_db example_heap 4"
    by (simp add: valid_db_def example_heap_def get_db_def get_set_def)
  have r: "get_res example_heap 5 = Inr example_result"
    by (simp add: example_heap_def get_res_def)
  from arguments_unchanged[OF v r, of "1 / 2" 0 1 "6 / 10"] v r show ?thesis by simp
qed

end
